theory Spec2Isabelle
  imports
    Main
    "HOL-Library.AList"
    "HOL-Library.Char_ord"
    "HOL-Library.List_Lexorder"
    "HOL-Library.Product_Lexorder"
begin

section \<open>The kern feature writer of ufo2ft (Lib/ufo2ft/kernFeatureWriter.py)\<close>

text \<open>
  A shallow embedding of \<^verbatim>\<open>KernFeatureWriter\<close>. Conventions:

  \<^item> A Python \<^verbatim>\<open>dict\<close> is an association list with pairwise different keys, in
    insertion order. \<^verbatim>\<open>d[k] = v\<close> is \<^const>\<open>AList.update\<close> (the value is replaced
    in place when the key is there, the entry is appended otherwise), \<^verbatim>\<open>del d[k]\<close>
    is \<^const>\<open>AList.delete\<close>, \<^verbatim>\<open>d[k]\<close> and \<^verbatim>\<open>k in d\<close> are \<^const>\<open>map_of\<close>.
  \<^item> \<^verbatim>\<open>for ... in d.items()\<close> runs over the list of items the dictionary
    has when the loop starts (\<^verbatim>\<open>items()\<close> returning a list, as it does for the Python 2
    this module was written for, and as \<^verbatim>\<open>list(d.items())\<close> does everywhere).
  \<^item> The writer object is a record; every method takes the record and returns
    the updated one. A method that can raise returns \<open>error + writer\<close>.
  \<^item> Strings are \<^typ>\<open>string\<close>; \<^verbatim>\<open>sorted\<close> is \<^const>\<open>sort\<close> for the lexicographic
    order of tuples and strings.
  \<^item> The feature text is given by the class definitions that
    \<^verbatim>\<open>parser.parseFeatures\<close> reports to \<^verbatim>\<open>classDefinition\<close>, in the order of the text.
\<close>

subsection \<open>Data\<close>

text \<open>
  Modelled from the spec: the kerning object of the font, whose class belongs to
  the font library and not to this module. It is a table from pairs to values
  that is queried by pair (\<^verbatim>\<open>kerning[pair]\<close>, \<^verbatim>\<open>None\<close> for an absent pair),
  enumerated as items, written by pair, and shrunk by \<^verbatim>\<open>remove(pair)\<close>: a
  dictionary like the others, \<open>kerning_t\<close>.
\<close>

type_synonym pair = "string \<times> string"
type_synonym kerning_t = "(pair \<times> int) list"
type_synonym classes_t = "(string \<times> string list) list"

datatype error = IndexError | KeyError

record writer =
  kerning :: kerning_t
  groups :: classes_t
  featxt :: classes_t
  leftFeaClasses :: classes_t
  rightFeaClasses :: classes_t
  leftUfoClasses :: classes_t
  rightUfoClasses :: classes_t
  glyphPairKerning :: kerning_t
  leftClassKerning :: kerning_t
  rightClassKerning :: kerning_t
  classPairKerning :: kerning_t

text \<open>\<^verbatim>\<open>__init__\<close>: the three inputs of the font, empty registries and buckets.\<close>

definition init :: "kerning_t \<Rightarrow> classes_t \<Rightarrow> classes_t \<Rightarrow> writer" where
  "init k g f =
     \<lparr>kerning = k, groups = g, featxt = f,
      leftFeaClasses = [], rightFeaClasses = [],
      leftUfoClasses = [], rightUfoClasses = [],
      glyphPairKerning = [], leftClassKerning = [],
      rightClassKerning = [], classPairKerning = []\<rparr>"

subsection \<open>Strings\<close>

text \<open>\<^verbatim>\<open>sep.join(xs)\<close>.\<close>

fun join :: "string \<Rightarrow> string list \<Rightarrow> string" where
  "join sep [] = []"
| "join sep [x] = x"
| "join sep (x # y # ys) = x @ sep @ join sep (y # ys)"

text \<open>\<^verbatim>\<open>"%d" % n\<close> for a natural number and for an integer.\<close>

definition digit :: "nat \<Rightarrow> char" where
  "digit d = ''0123456789'' ! d"

fun dec :: "nat \<Rightarrow> string" where
  "dec n = (if n < 10 then [digit n] else dec (n div 10) @ [digit (n mod 10)])"

declare dec.simps [simp del]

definition dec_int :: "int \<Rightarrow> string" where
  "dec_int v = (if v < 0 then CHR ''-'' # dec (nat (- v)) else dec (nat v))"

text \<open>\<^verbatim>\<open>_liststr\<close>: \<^verbatim>\<open>"[%s]" % " ".join(glyphs)\<close>.\<close>

definition liststr :: "string list \<Rightarrow> string" where
  "liststr glyphs = ''['' @ join '' '' glyphs @ '']''"

subsection \<open>Class name patterns\<close>

text \<open>
  The four patterns \<^verbatim>\<open>^public\.kern1\.(.+)\<close>, \<^verbatim>\<open>^public\.kern2\.(.+)\<close>,
  \<^verbatim>\<open>@MMK_L_(.+)\<close> and \<^verbatim>\<open>@MMK_R_(.+)\<close> are each a literal prefix followed by
  \<^verbatim>\<open>(.+)\<close>, and \<^verbatim>\<open>re.match\<close> anchors at the start of the name: the name matches
  when it begins with the prefix and the next character exists and is not a
  newline. A pattern is represented by its prefix.
\<close>

definition leftUfoGroupRe :: string where "leftUfoGroupRe = ''public.kern1.''"
definition rightUfoGroupRe :: string where "rightUfoGroupRe = ''public.kern2.''"
definition leftFeaClassRe :: string where "leftFeaClassRe = ''@MMK_L_''"
definition rightFeaClassRe :: string where "rightFeaClassRe = ''@MMK_R_''"

definition isClassName :: "string \<Rightarrow> string \<Rightarrow> bool" where
  "isClassName nameRe name =
     (take (length nameRe) name = nameRe \<and>
      (case drop (length nameRe) name of [] \<Rightarrow> False | c # _ \<Rightarrow> c \<noteq> CHR 0x0A))"

subsection \<open>Collecting the classes of the feature text\<close>

definition classDefinition :: "writer \<Rightarrow> string \<Rightarrow> string list \<Rightarrow> writer" where
  "classDefinition st name contents =
     (if isClassName leftFeaClassRe name
      then st\<lparr>leftFeaClasses := AList.update name contents (leftFeaClasses st)\<rparr>
      else if isClassName rightFeaClassRe name
      then st\<lparr>rightFeaClasses := AList.update name contents (rightFeaClasses st)\<rparr>
      else st)"

definition collectFeaClasses :: "writer \<Rightarrow> writer" where
  "collectFeaClasses st = fold (\<lambda>(name, contents) s. classDefinition s name contents) (featxt st) st"

subsection \<open>Key glyph kerning of the feature classes\<close>

text \<open>\<^verbatim>\<open>_getGlyphKern\<close>; \<open>index\<close> is 0 or 1 at every call.\<close>

definition getGlyphKern :: "kerning_t \<Rightarrow> string \<Rightarrow> nat \<Rightarrow> kerning_t" where
  "getGlyphKern kern glyphName index =
     filter (\<lambda>(k, v). (if index = 0 then fst k else snd k) = glyphName) kern"

text \<open>
  The inner loop over the right classes, for one left class. \<^verbatim>\<open>rightContents[0]\<close>
  raises \<^verbatim>\<open>IndexError\<close> on an empty class. \<^verbatim>\<open>remove\<close> is applied to a pair that
  was just found in the table.
\<close>

fun collectClassPairs :: "string \<Rightarrow> string \<Rightarrow> classes_t \<Rightarrow> writer \<Rightarrow> error + writer" where
  "collectClassPairs leftName leftKey [] st = Inr st"
| "collectClassPairs leftName leftKey ((rightName, rightContents) # rest) st =
     (case rightContents of
        [] \<Rightarrow> Inl IndexError
      | rightKey # _ \<Rightarrow>
          (case map_of (kerning st) (leftKey, rightKey) of
             None \<Rightarrow> collectClassPairs leftName leftKey rest st
           | Some kerningVal \<Rightarrow>
               collectClassPairs leftName leftKey rest
                 (st\<lparr>classPairKerning :=
                        AList.update (leftName, rightName) kerningVal (classPairKerning st),
                     kerning := AList.delete (leftKey, rightKey) (kerning st)\<rparr>)))"

definition collectLeftGlyphs :: "string \<Rightarrow> string \<Rightarrow> writer \<Rightarrow> writer" where
  "collectLeftGlyphs leftName leftKey st =
     fold (\<lambda>(pair, kerningVal) s.
             s\<lparr>leftClassKerning :=
                  AList.update (leftName, snd pair) kerningVal (leftClassKerning s),
               kerning := AList.delete pair (kerning s)\<rparr>)
          (getGlyphKern (kerning st) leftKey 0) st"

definition collectRightGlyphs :: "string \<Rightarrow> string \<Rightarrow> writer \<Rightarrow> writer" where
  "collectRightGlyphs rightName rightKey st =
     fold (\<lambda>(pair, kerningVal) s.
             s\<lparr>rightClassKerning :=
                  AList.update (fst pair, rightName) kerningVal (rightClassKerning s),
               kerning := AList.delete pair (kerning s)\<rparr>)
          (getGlyphKern (kerning st) rightKey 1) st"

fun collectLeftFea :: "classes_t \<Rightarrow> writer \<Rightarrow> error + writer" where
  "collectLeftFea [] st = Inr st"
| "collectLeftFea ((leftName, leftContents) # rest) st =
     (case leftContents of
        [] \<Rightarrow> Inl IndexError
      | leftKey # _ \<Rightarrow>
          (case collectClassPairs leftName leftKey (rightFeaClasses st) st of
             Inl e \<Rightarrow> Inl e
           | Inr st' \<Rightarrow> collectLeftFea rest (collectLeftGlyphs leftName leftKey st')))"

fun collectRightFea :: "classes_t \<Rightarrow> writer \<Rightarrow> error + writer" where
  "collectRightFea [] st = Inr st"
| "collectRightFea ((rightName, rightContents) # rest) st =
     (case rightContents of
        [] \<Rightarrow> Inl IndexError
      | rightKey # _ \<Rightarrow> collectRightFea rest (collectRightGlyphs rightName rightKey st))"

definition collectFeaClassKerning :: "writer \<Rightarrow> error + writer" where
  "collectFeaClassKerning st =
     (case collectLeftFea (leftFeaClasses st) st of
        Inl e \<Rightarrow> Inl e
      | Inr st' \<Rightarrow> collectRightFea (rightFeaClasses st') st')"

subsection \<open>Collecting and renaming the classes of the font's groups\<close>

definition collectUfoClasses :: "writer \<Rightarrow> writer" where
  "collectUfoClasses st =
     fold (\<lambda>(name, contents) s.
             (let s1 = (if isClassName leftUfoGroupRe name
                        then s\<lparr>leftUfoClasses := AList.update name contents (leftUfoClasses s)\<rparr>
                        else s)
              in if isClassName rightUfoGroupRe name
                 then s1\<lparr>rightUfoClasses := AList.update name contents (rightUfoClasses s1)\<rparr>
                 else s1))
          (groups st) st"

text \<open>The characters that \<^verbatim>\<open>re.sub(r"[^A-Za-z0-9._]", "", name)\<close> keeps.\<close>

definition legalChar :: "char \<Rightarrow> bool" where
  "legalChar c =
     (c \<in> set ''ABCDEFGHIJKLMNOPQRSTUVWXYZabcdefghijklmnopqrstuvwxyz0123456789._'')"

definition existingClassNames :: "writer \<Rightarrow> string list" where
  "existingClassNames st =
     map fst (leftFeaClasses st) @ map fst (rightFeaClasses st) @
     map fst (leftUfoClasses st) @ map fst (rightUfoClasses st)"

definition suffixed :: "string \<Rightarrow> nat \<Rightarrow> string" where
  "suffixed origName i = origName @ ''_'' @ dec i"

text \<open>
  \<^verbatim>\<open>"%s_%d" % (origName, i)\<close> gives a different string for every \<open>i\<close>; this is
  what makes the search for a free name stop.
\<close>

lemma digit_val: "d < 10 \<Longrightarrow> of_char (digit d) - 48 = (d::nat)"
proof -
  assume "d < 10"
  then have "d \<in> {0, 1, 2, 3, 4, 5, 6, 7, 8, 9}" by auto
  then show ?thesis by (auto simp: digit_def)
qed

lemma dec_value: "foldl (\<lambda>a c. 10 * a + (of_char c - 48)) 0 (dec n) = n"
proof (induction n rule: dec.induct)
  case (1 n)
  show ?case
  proof (cases "n < 10")
    case True
    then show ?thesis by (simp add: dec.simps[of n] digit_val)
  next
    case False
    with 1 show ?thesis by (simp add: dec.simps[of n] digit_val)
  qed
qed

lemma inj_dec: "inj dec"
  by (metis injI dec_value)

lemma inj_suffixed: "inj (suffixed origName)"
  using inj_dec by (auto simp: inj_def suffixed_def)

lemma finite_suffixed_in: "finite {j. i \<le> j \<and> suffixed origName j \<in> set existing}"
proof -
  have "finite (suffixed origName -` set existing)"
    by (rule finite_vimageI[OF _ inj_suffixed]) simp
  moreover have "{j. i \<le> j \<and> suffixed origName j \<in> set existing}
                 \<subseteq> suffixed origName -` set existing" by auto
  ultimately show ?thesis by (rule rev_finite_subset)
qed

text \<open>
  The \<^verbatim>\<open>while name in existingClassNames\<close> loop of \<^verbatim>\<open>_makeFeaClassName\<close>, with its
  two variables \<open>name\<close> and \<open>i\<close>.
\<close>

function nameLoop :: "string \<Rightarrow> string list \<Rightarrow> string \<Rightarrow> nat \<Rightarrow> string" where
  "nameLoop origName existing name i =
     (if name \<in> set existing
      then nameLoop origName existing (suffixed origName i) (i + 1)
      else name)"
  by pat_completeness auto
termination
proof (relation "measure (\<lambda>(origName, existing, name, i).
          (if name \<in> set existing then 1 else 0) +
          2 * card {j. i \<le> j \<and> suffixed origName j \<in> set existing})")
  show "wf (measure (\<lambda>(origName, existing, name, i).
          (if name \<in> set existing then 1 else 0) +
          2 * card {j. i \<le> j \<and> suffixed origName j \<in> set existing}))" by simp
next
  fix origName :: string and existing :: "string list" and name :: string and i :: nat
  assume inex: "name \<in> set existing"
  let ?C = "\<lambda>i. {j. i \<le> j \<and> suffixed origName j \<in> set existing}"
  have fin: "finite (?C i)" by (rule finite_suffixed_in)
  have sub: "?C (i + 1) \<subseteq> ?C i" by auto
  show "((origName, existing, suffixed origName i, i + 1), (origName, existing, name, i))
        \<in> measure (\<lambda>(origName, existing, name, i).
          (if name \<in> set existing then 1 else 0) +
          2 * card {j. i \<le> j \<and> suffixed origName j \<in> set existing})"
  proof (cases "suffixed origName i \<in> set existing")
    case True
    then have "i \<in> ?C i" "i \<notin> ?C (i + 1)" by auto
    then have "?C (i + 1) \<subset> ?C i" using sub by blast
    then have "card (?C (i + 1)) < card (?C i)" using fin by (rule psubset_card_mono[rotated])
    with True inex show ?thesis by simp
  next
    case False
    have "card (?C (i + 1)) \<le> card (?C i)" using fin sub by (rule card_mono)
    with False inex show ?thesis by simp
  qed
qed

declare nameLoop.simps [simp del]

definition makeFeaClassName :: "writer \<Rightarrow> string \<Rightarrow> string" where
  "makeFeaClassName st name =
     (let origName = CHR ''@'' # filter legalChar name
      in nameLoop origName (existingClassNames st) origName 1)"

text \<open>
  One pass of the first loop of \<^verbatim>\<open>_correctUfoClassNames\<close>. The class is stored
  under the new name before the old name is deleted, and each kerning entry is
  stored under the new pair before the old pair is removed; the old key is in
  the table at both places (it comes from the items just enumerated), so neither
  \<^verbatim>\<open>del\<close> nor \<^verbatim>\<open>remove\<close> can raise.
\<close>

definition renameLeftClass :: "writer \<Rightarrow> string \<times> string list \<Rightarrow> writer" where
  "renameLeftClass st item =
     (case item of (name, members) \<Rightarrow>
        (let newName = makeFeaClassName st name in
         if name = newName then st
         else
           (let st1 = st\<lparr>leftUfoClasses :=
                           AList.delete name (AList.update newName members (leftUfoClasses st))\<rparr>
            in fold (\<lambda>(pair, kerningVal) s.
                       s\<lparr>kerning := AList.delete pair
                                      (AList.update (newName, snd pair) kerningVal (kerning s))\<rparr>)
                    (getGlyphKern (kerning st1) name 0) st1)))"

definition renameRightClass :: "writer \<Rightarrow> string \<times> string list \<Rightarrow> writer" where
  "renameRightClass st item =
     (case item of (name, members) \<Rightarrow>
        (let newName = makeFeaClassName st name in
         if name = newName then st
         else
           (let st1 = st\<lparr>rightUfoClasses :=
                           AList.delete name (AList.update newName members (rightUfoClasses st))\<rparr>
            in fold (\<lambda>(pair, kerningVal) s.
                       s\<lparr>kerning := AList.delete pair
                                      (AList.update (fst pair, newName) kerningVal (kerning s))\<rparr>)
                    (getGlyphKern (kerning st1) name 1) st1)))"

definition correctLeftNames :: "writer \<Rightarrow> writer" where
  "correctLeftNames st = fold (\<lambda>item s. renameLeftClass s item) (leftUfoClasses st) st"

definition correctRightNames :: "writer \<Rightarrow> writer" where
  "correctRightNames st = fold (\<lambda>item s. renameRightClass s item) (rightUfoClasses st) st"

definition correctUfoClassNames :: "writer \<Rightarrow> writer" where
  "correctUfoClassNames st = correctRightNames (correctLeftNames st)"

subsection \<open>Sorting the remaining kerning into the four buckets\<close>

definition collectUfoKerning :: "writer \<Rightarrow> writer" where
  "collectUfoKerning st =
     fold (\<lambda>(glyphPair, val) s.
             (let left = fst glyphPair; right = snd glyphPair;
                  leftIsClass = (left \<in> fst ` set (leftUfoClasses s));
                  rightIsClass = (right \<in> fst ` set (rightUfoClasses s))
              in if leftIsClass
                 then (if rightIsClass
                       then s\<lparr>classPairKerning := AList.update glyphPair val (classPairKerning s)\<rparr>
                       else s\<lparr>leftClassKerning := AList.update glyphPair val (leftClassKerning s)\<rparr>)
                 else if rightIsClass
                 then s\<lparr>rightClassKerning := AList.update glyphPair val (rightClassKerning s)\<rparr>
                 else s\<lparr>glyphPairKerning := AList.update glyphPair val (glyphPairKerning s)\<rparr>))
          (sort (kerning st)) st"

subsection \<open>Removing conflicting rules\<close>

text \<open>\<^verbatim>\<open>d.copy()\<close> followed by \<^verbatim>\<open>update(other)\<close>.\<close>

definition dictUpdate :: "('k \<times> 'v) list \<Rightarrow> ('k \<times> 'v) list \<Rightarrow> ('k \<times> 'v) list" where
  "dictUpdate d other = fold (\<lambda>(k, v). AList.update k v) other d"

text \<open>A loop whose body can raise: the first error ends it.\<close>

fun foldE :: "('a \<Rightarrow> 's \<Rightarrow> error + 's) \<Rightarrow> 'a list \<Rightarrow> 's \<Rightarrow> error + 's" where
  "foldE f [] s = Inr s"
| "foldE f (x # xs) s = (case f x s of Inl e \<Rightarrow> Inl e | Inr s' \<Rightarrow> foldE f xs s')"

text \<open>
  The inner loops: the members of the class whose pair is not in \<open>seen\<close> are
  kept, and their pairs are entered in \<open>seen\<close> with the rule's value.
\<close>

definition keepUnseenLeft ::
  "string list \<Rightarrow> string \<Rightarrow> int \<Rightarrow> kerning_t \<Rightarrow> string list \<times> kerning_t" where
  "keepUnseenLeft lGlyphs rGlyph val seen =
     fold (\<lambda>lGlyph (nlGlyphs, seen).
             if map_of seen (lGlyph, rGlyph) = None
             then (nlGlyphs @ [lGlyph], AList.update (lGlyph, rGlyph) val seen)
             else (nlGlyphs, seen))
          lGlyphs ([], seen)"

definition keepUnseenRight ::
  "string \<Rightarrow> string list \<Rightarrow> int \<Rightarrow> kerning_t \<Rightarrow> string list \<times> kerning_t" where
  "keepUnseenRight lGlyph rGlyphs val seen =
     fold (\<lambda>rGlyph (nrGlyphs, seen).
             if map_of seen (lGlyph, rGlyph) = None
             then (nrGlyphs @ [rGlyph], AList.update (lGlyph, rGlyph) val seen)
             else (nrGlyphs, seen))
          rGlyphs ([], seen)"

definition keepUnseenPairs ::
  "string list \<Rightarrow> string list \<Rightarrow> int \<Rightarrow> kerning_t \<Rightarrow> string set \<times> string set \<times> kerning_t" where
  "keepUnseenPairs lGlyphs rGlyphs val seen =
     fold (\<lambda>lGlyph acc.
             fold (\<lambda>rGlyph (nlGlyphs, nrGlyphs, seen).
                     if map_of seen (lGlyph, rGlyph) = None
                     then (insert lGlyph nlGlyphs, insert rGlyph nrGlyphs,
                           AList.update (lGlyph, rGlyph) val seen)
                     else (nlGlyphs, nrGlyphs, seen))
                  rGlyphs acc)
          lGlyphs ({}, {}, seen)"

text \<open>
  The bodies of the three loops over the buckets. The state of a loop is the
  dictionary \<open>seen\<close> and the bucket; the rule comes from the list of items taken
  before the loop. \<^verbatim>\<open>leftClasses[lClass]\<close> raises \<^verbatim>\<open>KeyError\<close> for an unknown
  class. The narrowed rule is stored before the rule is deleted, so the deleted
  key is in the bucket.
\<close>

definition resolveLeftRule ::
  "classes_t \<Rightarrow> pair \<times> int \<Rightarrow> kerning_t \<times> kerning_t \<Rightarrow> error + (kerning_t \<times> kerning_t)" where
  "resolveLeftRule leftClasses rule acc =
     (case (rule, acc) of (((lClass, rGlyph), val), (seen, bucket)) \<Rightarrow>
        (case map_of leftClasses lClass of
           None \<Rightarrow> Inl KeyError
         | Some lGlyphs \<Rightarrow>
             (case keepUnseenLeft lGlyphs rGlyph val seen of (nlGlyphs, seen') \<Rightarrow>
                if nlGlyphs \<noteq> lGlyphs
                then Inr (seen', AList.delete (lClass, rGlyph)
                                   (AList.update (liststr nlGlyphs, rGlyph) val bucket))
                else Inr (seen', bucket))))"

definition resolveRightRule ::
  "classes_t \<Rightarrow> pair \<times> int \<Rightarrow> kerning_t \<times> kerning_t \<Rightarrow> error + (kerning_t \<times> kerning_t)" where
  "resolveRightRule rightClasses rule acc =
     (case (rule, acc) of (((lGlyph, rClass), val), (seen, bucket)) \<Rightarrow>
        (case map_of rightClasses rClass of
           None \<Rightarrow> Inl KeyError
         | Some rGlyphs \<Rightarrow>
             (case keepUnseenRight lGlyph rGlyphs val seen of (nrGlyphs, seen') \<Rightarrow>
                if nrGlyphs \<noteq> rGlyphs
                then Inr (seen', AList.delete (lGlyph, rClass)
                                   (AList.update (lGlyph, liststr nrGlyphs) val bucket))
                else Inr (seen', bucket))))"

definition resolveClassPairRule ::
  "classes_t \<Rightarrow> classes_t \<Rightarrow> pair \<times> int \<Rightarrow> kerning_t \<times> kerning_t \<Rightarrow>
   error + (kerning_t \<times> kerning_t)" where
  "resolveClassPairRule leftClasses rightClasses rule acc =
     (case (rule, acc) of (((lClass, rClass), val), (seen, bucket)) \<Rightarrow>
        (case map_of leftClasses lClass of
           None \<Rightarrow> Inl KeyError
         | Some lGlyphs \<Rightarrow>
             (case map_of rightClasses rClass of
                None \<Rightarrow> Inl KeyError
              | Some rGlyphs \<Rightarrow>
                  (case keepUnseenPairs lGlyphs rGlyphs val seen of (nlGlyphs, nrGlyphs, seen') \<Rightarrow>
                     (let nlClass = (if nlGlyphs \<noteq> set lGlyphs
                                     then liststr (sorted_list_of_set nlGlyphs) else lClass);
                          nrClass = (if nrGlyphs \<noteq> set rGlyphs
                                     then liststr (sorted_list_of_set nrGlyphs) else rClass)
                      in if nlClass \<noteq> lClass \<or> nrClass \<noteq> rClass
                         then Inr (seen', AList.delete (lClass, rClass)
                                            (AList.update (nlClass, nrClass) val bucket))
                         else Inr (seen', bucket))))))"

definition removeConflictingKerningRules :: "writer \<Rightarrow> error + writer" where
  "removeConflictingKerningRules st =
     (let leftClasses = dictUpdate (leftFeaClasses st) (leftUfoClasses st);
          rightClasses = dictUpdate (rightFeaClasses st) (rightUfoClasses st);
          seen = glyphPairKerning st
      in case foldE (resolveLeftRule leftClasses) (leftClassKerning st)
                    (seen, leftClassKerning st) of
           Inl e \<Rightarrow> Inl e
         | Inr (seen1, leftBucket) \<Rightarrow>
        (case foldE (resolveRightRule rightClasses) (rightClassKerning st)
                    (seen1, rightClassKerning st) of
           Inl e \<Rightarrow> Inl e
         | Inr (seen2, rightBucket) \<Rightarrow>
        (case foldE (resolveClassPairRule leftClasses rightClasses) (classPairKerning st)
                    (seen2, classPairKerning st) of
           Inl e \<Rightarrow> Inl e
         | Inr (seen3, pairBucket) \<Rightarrow>
             Inr (st\<lparr>leftClassKerning := leftBucket,
                     rightClassKerning := rightBucket,
                     classPairKerning := pairBucket\<rparr>))))"

subsection \<open>Writing the feature\<close>

definition addGlyphClasses :: "writer \<Rightarrow> string list" where
  "addGlyphClasses st =
     map (\<lambda>(key, members). key @ '' = ['' @ join '' '' members @ ''];'')
         (sort (dictUpdate (leftUfoClasses st) (rightUfoClasses st)))"

definition addKerning :: "kerning_t \<Rightarrow> bool \<Rightarrow> string list" where
  "addKerning kern enum =
     map (\<lambda>((left, right), val).
            ''    '' @ (if enum then ''enum '' else []) @ ''pos '' @ left @ '' '' @ right @
            '' '' @ dec_int val @ '';'')
         (sort kern)"

text \<open>The six steps of \<^verbatim>\<open>write\<close> that fill and clean the buckets.\<close>

definition collect :: "writer \<Rightarrow> error + writer" where
  "collect st =
     (case collectFeaClassKerning (collectFeaClasses st) of
        Inl e \<Rightarrow> Inl e
      | Inr st1 \<Rightarrow>
          removeConflictingKerningRules
            (collectUfoKerning (correctUfoClassNames (collectUfoClasses st1))))"

text \<open>The lines \<^verbatim>\<open>write\<close> builds when some bucket has a rule.\<close>

definition featureLines :: "writer \<Rightarrow> string list" where
  "featureLines st =
     addGlyphClasses st @ [[]] @ [''feature kern {''] @
     addKerning (glyphPairKerning st) False @
     (if leftClassKerning st \<noteq> []
      then ''    subtable;'' # addKerning (leftClassKerning st) True else []) @
     (if rightClassKerning st \<noteq> []
      then ''    subtable;'' # addKerning (rightClassKerning st) True else []) @
     (if classPairKerning st \<noteq> []
      then ''    subtable;'' # addKerning (classPairKerning st) False else []) @
     [''} kern;'']"

text \<open>\<^verbatim>\<open>write\<close> (the name is an Isar keyword, hence the suffix).\<close>

definition write_kern :: "writer \<Rightarrow> string \<Rightarrow> error + string" where
  "write_kern st linesep =
     (case collect st of
        Inl e \<Rightarrow> Inl e
      | Inr st' \<Rightarrow>
          if glyphPairKerning st' = [] \<and> leftClassKerning st' = [] \<and>
             rightClassKerning st' = [] \<and> classPairKerning st' = []
          then Inr []
          else Inr (join linesep (featureLines st')))"

section \<open>Properties\<close>

subsection \<open>Loops\<close>

lemma fold_invariant:
  assumes "P s" and "\<And>x s. x \<in> set xs \<Longrightarrow> P s \<Longrightarrow> P (f x s)"
  shows "P (fold f xs s)"
  using assms by (induction xs arbitrary: s) auto

subsection \<open>Feature classes without members\<close>

lemma collectClassPairs_error:
  "collectClassPairs leftName leftKey rs st = Inl e \<Longrightarrow> e = IndexError"
  by (induction rs arbitrary: st) (auto split: list.splits option.splits)

lemma collectClassPairs_fea:
  "collectClassPairs leftName leftKey rs st = Inr st' \<Longrightarrow>
   rightFeaClasses st' = rightFeaClasses st \<and> leftFeaClasses st' = leftFeaClasses st"
  by (induction rs arbitrary: st) (auto split: list.splits option.splits)

lemma collectLeftGlyphs_fea:
  "rightFeaClasses (collectLeftGlyphs leftName leftKey st) = rightFeaClasses st \<and>
   leftFeaClasses (collectLeftGlyphs leftName leftKey st) = leftFeaClasses st"
  unfolding collectLeftGlyphs_def
  by (rule fold_invariant) auto

lemma collectLeftFea_error:
  "collectLeftFea ls st = Inl e \<Longrightarrow> e = IndexError"
  by (induction ls arbitrary: st)
     (auto split: list.splits sum.splits dest: collectClassPairs_error)

lemma collectLeftFea_right:
  "collectLeftFea ls st = Inr st' \<Longrightarrow> rightFeaClasses st' = rightFeaClasses st"
  by (induction ls arbitrary: st)
     (auto split: list.splits sum.splits simp: collectLeftGlyphs_fea dest: collectClassPairs_fea)

lemma collectLeftFea_empty:
  "[] \<in> snd ` set ls \<Longrightarrow> collectLeftFea ls st = Inl IndexError"
proof (induction ls arbitrary: st)
  case Nil
  then show ?case by simp
next
  case (Cons item ls)
  obtain leftName leftContents where item: "item = (leftName, leftContents)" by (cases item)
  show ?case
  proof (cases leftContents)
    case Nil
    with item show ?thesis by simp
  next
    case (Cons leftKey more)
    with Cons.prems item have rest: "[] \<in> snd ` set ls" by auto
    show ?thesis
    proof (cases "collectClassPairs leftName leftKey (rightFeaClasses st) st")
      case (Inl e)
      then have "e = IndexError" by (rule collectClassPairs_error)
      with Inl item Cons show ?thesis by simp
    next
      case (Inr st')
      with item Cons Cons.IH[OF rest] show ?thesis by simp
    qed
  qed
qed

lemma collectRightFea_empty:
  "[] \<in> snd ` set rs \<Longrightarrow> collectRightFea rs st = Inl IndexError"
  by (induction rs arbitrary: st) (auto split: list.splits)

lemma collectFeaClassKerning_empty:
  assumes "[] \<in> snd ` (set (leftFeaClasses st) \<union> set (rightFeaClasses st))"
  shows "collectFeaClassKerning st = Inl IndexError"
proof (cases "[] \<in> snd ` set (leftFeaClasses st)")
  case True
  then show ?thesis by (simp add: collectFeaClassKerning_def collectLeftFea_empty)
next
  case False
  with assms have r: "[] \<in> snd ` set (rightFeaClasses st)" by auto
  show ?thesis
  proof (cases "collectLeftFea (leftFeaClasses st) st")
    case (Inl e)
    then have "e = IndexError" by (rule collectLeftFea_error)
    with Inl show ?thesis by (simp add: collectFeaClassKerning_def)
  next
    case (Inr st')
    then have "rightFeaClasses st' = rightFeaClasses st" by (rule collectLeftFea_right)
    with r Inr show ?thesis by (simp add: collectFeaClassKerning_def collectRightFea_empty)
  qed
qed

text \<open>
  C9. The feature classes are the entries that \<^const>\<open>collectFeaClasses\<close> has stored
  in \<^const>\<open>leftFeaClasses\<close> and \<^const>\<open>rightFeaClasses\<close>. When one of them, left or
  right, has no member, \<^const>\<open>collectFeaClassKerning\<close> raises \<^verbatim>\<open>IndexError\<close> at
  \<^verbatim>\<open>contents[0]\<close>, whatever the kerning and the other classes are, and
  \<^verbatim>\<open>write\<close> ends with that error instead of a text.
\<close>

theorem empty_fea_class_fails:
  assumes "[] \<in> snd ` (set (leftFeaClasses (collectFeaClasses st)) \<union>
                         set (rightFeaClasses (collectFeaClasses st)))"
  shows "collectFeaClassKerning (collectFeaClasses st) = Inl IndexError \<and>
         write_kern st linesep = Inl IndexError"
  using collectFeaClassKerning_empty[OF assms]
  by (simp add: write_kern_def collect_def)

theorem empty_fea_class_fails_witness:
  "[] \<in> snd ` (set (leftFeaClasses (collectFeaClasses
            (init [((''A'', ''B''), -10)] [] [(''@MMK_L_x'', [''D'', ''A'']), (''@MMK_R_y'', [])]))) \<union>
          set (rightFeaClasses (collectFeaClasses
            (init [((''A'', ''B''), -10)] [] [(''@MMK_L_x'', [''D'', ''A'']), (''@MMK_R_y'', [])])))) \<and>
   write_kern (init [((''A'', ''B''), -10)] [] [(''@MMK_L_x'', [''D'', ''A'']), (''@MMK_R_y'', [])])
     [CHR 0x0A] = Inl IndexError"
proof -
  have h: "[] \<in> snd ` (set (leftFeaClasses (collectFeaClasses
            (init [((''A'', ''B''), -10)] [] [(''@MMK_L_x'', [''D'', ''A'']), (''@MMK_R_y'', [])]))) \<union>
          set (rightFeaClasses (collectFeaClasses
            (init [((''A'', ''B''), -10)] [] [(''@MMK_L_x'', [''D'', ''A'']), (''@MMK_R_y'', [])]))))"
    by code_simp
  from empty_fea_class_fails[OF h, of "[CHR 0x0A]"] h show ?thesis by blast
qed

subsection \<open>No rule, no output\<close>

text \<open>
  C5. When the four buckets are empty after the collection and the conflict
  resolution, \<^verbatim>\<open>write\<close> returns the empty string: neither a class
  declaration nor a feature block is written. In particular the empty kerning
  table with no groups and no feature classes gives the empty string.
\<close>

theorem no_rules_no_output:
  assumes "collect st = Inr st'"
    and "glyphPairKerning st' = []" and "leftClassKerning st' = []"
    and "rightClassKerning st' = []" and "classPairKerning st' = []"
  shows "write_kern st linesep = Inr [] \<and> write_kern (init [] [] []) linesep = Inr []"
proof -
  have "write_kern st linesep = Inr []" using assms by (simp add: write_kern_def)
  moreover have "collect (init [] [] []) = Inr (init [] [] [])"
    by (simp add: collect_def init_def collectFeaClasses_def collectFeaClassKerning_def
        collectUfoClasses_def correctUfoClassNames_def correctLeftNames_def
        correctRightNames_def collectUfoKerning_def removeConflictingKerningRules_def
        dictUpdate_def)
  then have "write_kern (init [] [] []) linesep = Inr []"
    by (simp add: write_kern_def init_def)
  ultimately show ?thesis by simp
qed

theorem no_rules_no_output_witness:
  "collect (init [] [(''public.kern1.L'', [''A'', ''B''])] []) =
     Inr \<lparr>kerning = [], groups = [(''public.kern1.L'', [''A'', ''B''])], featxt = [],
      leftFeaClasses = [], rightFeaClasses = [],
      leftUfoClasses = [(''@public.kern1.L'', [''A'', ''B''])], rightUfoClasses = [],
      glyphPairKerning = [], leftClassKerning = [],
      rightClassKerning = [], classPairKerning = []\<rparr> \<and>
   write_kern (init [] [(''public.kern1.L'', [''A'', ''B''])] []) [CHR 0x0A] = Inr []"
proof -
  have c: "collect (init [] [(''public.kern1.L'', [''A'', ''B''])] []) =
     Inr \<lparr>kerning = [], groups = [(''public.kern1.L'', [''A'', ''B''])], featxt = [],
      leftFeaClasses = [], rightFeaClasses = [],
      leftUfoClasses = [(''@public.kern1.L'', [''A'', ''B''])], rightUfoClasses = [],
      glyphPairKerning = [], leftClassKerning = [],
      rightClassKerning = [], classPairKerning = []\<rparr>"
    by code_simp
  from no_rules_no_output[OF c, of "[CHR 0x0A]"] c show ?thesis by simp
qed

subsection \<open>Corrected class names\<close>

lemma nameLoop_result:
  "nameLoop origName existing name i = name \<or>
   (\<exists>j. nameLoop origName existing name i = suffixed origName j)"
proof (induction origName existing name i rule: nameLoop.induct)
  case (1 origName existing name i)
  show ?case
  proof (cases "name \<in> set existing")
    case True
    with 1 show ?thesis by (subst (1 2) nameLoop.simps) auto
  next
    case False
    then show ?thesis by (subst nameLoop.simps) simp
  qed
qed

lemma nameLoop_free: "nameLoop origName existing name i \<notin> set existing"
proof (induction origName existing name i rule: nameLoop.induct)
  case (1 origName existing name i)
  show ?case
  proof (cases "name \<in> set existing")
    case True
    with 1 show ?thesis by (subst nameLoop.simps) auto
  next
    case False
    then show ?thesis by (subst nameLoop.simps) simp
  qed
qed

lemma makeFeaClassName_at: "take 1 (makeFeaClassName st name) = ''@''"
  using nameLoop_result[of "CHR ''@'' # filter legalChar name" "existingClassNames st"
      "CHR ''@'' # filter legalChar name" 1]
  by (auto simp: makeFeaClassName_def Let_def suffixed_def)

lemma makeFeaClassName_free: "makeFeaClassName st name \<notin> set (existingClassNames st)"
  by (simp add: makeFeaClassName_def Let_def nameLoop_free)

lemma isClassName_ufo_no_at:
  "isClassName leftUfoGroupRe name \<or> isClassName rightUfoGroupRe name \<Longrightarrow> take 1 name \<noteq> ''@''"
  by (cases name) (auto simp: isClassName_def leftUfoGroupRe_def rightUfoGroupRe_def)

text \<open>
  The inner loop of \<^verbatim>\<open>_correctUfoClassNames\<close> on the kerning table alone: every hit
  is stored under its new key, then removed under its old one.
\<close>

definition rekey :: "(pair \<Rightarrow> pair) \<Rightarrow> kerning_t \<Rightarrow> kerning_t \<Rightarrow> kerning_t" where
  "rekey newKey hits kern =
     fold (\<lambda>(pair, kerningVal) k. AList.delete pair (AList.update (newKey pair) kerningVal k))
          hits kern"

lemma fold_kerning:
  "fold (\<lambda>(pair, kerningVal) s.
           s\<lparr>kerning := AList.delete pair (AList.update (newKey pair) kerningVal (kerning s))\<rparr>)
        hits st
   = st\<lparr>kerning := rekey newKey hits (kerning st)\<rparr>"
  by (induction hits arbitrary: st) (auto simp: rekey_def)

lemma renameLeftClass_eq:
  "renameLeftClass st (name, members) =
     (if name = makeFeaClassName st name then st
      else st\<lparr>leftUfoClasses :=
                 AList.delete name
                   (AList.update (makeFeaClassName st name) members (leftUfoClasses st)),
              kerning := rekey (\<lambda>pair. (makeFeaClassName st name, snd pair))
                           (getGlyphKern (kerning st) name 0) (kerning st)\<rparr>)"
  by (simp add: renameLeftClass_def Let_def fold_kerning)

lemma renameRightClass_eq:
  "renameRightClass st (name, members) =
     (if name = makeFeaClassName st name then st
      else st\<lparr>rightUfoClasses :=
                 AList.delete name
                   (AList.update (makeFeaClassName st name) members (rightUfoClasses st)),
              kerning := rekey (\<lambda>pair. (fst pair, makeFeaClassName st name))
                           (getGlyphKern (kerning st) name 1) (kerning st)\<rparr>)"
  by (simp add: renameRightClass_def Let_def fold_kerning)

lemma keys_delete: "fst ` set (AList.delete k al) = fst ` set al - {k}"
  by (induction al) (auto simp: AList.delete_eq)


lemma renameRightClass_keys:
  "fst ` set (rightUfoClasses (renameRightClass st (name, members))) \<subseteq>
     insert (makeFeaClassName st name) (fst ` set (rightUfoClasses st) - {name})"
  by (auto simp: renameRightClass_eq keys_delete dom_update)



lemma renameRightClass_left [simp]:
  "leftUfoClasses (renameRightClass s item) = leftUfoClasses s"
  by (cases item) (simp add: renameRightClass_eq)

lemma renameLeftClass_right [simp]:
  "rightUfoClasses (renameLeftClass s item) = rightUfoClasses s"
  by (cases item) (simp add: renameLeftClass_eq)

lemma correctRightNames_left [simp]:
  "leftUfoClasses (correctRightNames st) = leftUfoClasses st"
  unfolding correctRightNames_def by (rule fold_invariant) auto

lemma correctLeftNames_right [simp]:
  "rightUfoClasses (correctLeftNames st) = rightUfoClasses st"
  unfolding correctLeftNames_def by (rule fold_invariant) auto


text \<open>The later steps leave the registries of classes alone.\<close>

lemma collectUfoKerning_classes [simp]:
  "leftUfoClasses (collectUfoKerning st) = leftUfoClasses st"
  "rightUfoClasses (collectUfoKerning st) = rightUfoClasses st"
  "leftFeaClasses (collectUfoKerning st) = leftFeaClasses st"
  "rightFeaClasses (collectUfoKerning st) = rightFeaClasses st"
  unfolding collectUfoKerning_def
  by (rule fold_invariant; auto simp: Let_def)+



lemma keys_dictUpdate: "fst ` set (dictUpdate d other) = fst ` set d \<union> fst ` set other"
proof (induction other arbitrary: d)
  case Nil
  then show ?case by (simp add: dictUpdate_def)
next
  case (Cons item other)
  obtain k v where item: "item = (k, v)" by (cases item)
  have "dictUpdate d (item # other) = dictUpdate (AList.update k v d) other"
    by (simp add: dictUpdate_def item)
  then show ?case using Cons.IH[of "AList.update k v d"] item
    by (simp add: dom_update)
qed






subsection \<open>Conflict resolution: the members that are kept\<close>

text \<open>
  The loops over the members of a class in the left and right buckets differ
  only in the pair they build from a member; \<open>keepUnseen\<close> is their common form.
\<close>


definition keepStep :: "(string \<Rightarrow> pair) \<Rightarrow> int \<Rightarrow> string \<Rightarrow> string list \<times> kerning_t \<Rightarrow> string list \<times> kerning_t" where
  "keepStep mk val = (\<lambda>g (kept, seen).
             if map_of seen (mk g) = None
             then (kept @ [g], AList.update (mk g) val seen)
             else (kept, seen))"


definition keepUnseen :: "(string \<Rightarrow> pair) \<Rightarrow> int \<Rightarrow> string list \<Rightarrow> kerning_t \<Rightarrow> string list \<times> kerning_t" where
  "keepUnseen mk val gs seen = fold (keepStep mk val) gs ([], seen)"

lemma keepUnseen_Nil [simp]: "keepUnseen mk val [] seen = ([], seen)"
  by (simp add: keepUnseen_def)







subsection \<open>Conflict resolution: one rule of the left or right bucket\<close>







lemma narrowed_bucket:
  assumes "new \<noteq> old"
  shows "map_of (AList.delete old (AList.update new val bucket)) new = Some val"
    and "map_of (AList.delete old (AList.update new val bucket)) old = None"
    and "k \<noteq> new \<Longrightarrow> k \<noteq> old \<Longrightarrow>
         map_of (AList.delete old (AList.update new val bucket)) k = map_of bucket k"
  using assms by (simp_all add: delete_conv' update_conv')







subsection \<open>Conflict resolution: the values\<close>














subsection \<open>Class pair rules that still overlap a glyph pair\<close>

text \<open>
  C1. The left class \<open>@L = [A B]\<close>, the right class \<open>@R = [X Y]\<close>, the class pair
  rule \<open>@L @R -15\<close> and the glyph pair rule \<open>A X -5\<close>. Every member of either class
  takes part in a pair that is not in \<open>seen\<close> (\<open>A\<close> in \<open>A Y\<close>, \<open>X\<close> in \<open>B X\<close>), so
  \<^verbatim>\<open>_removeConflictingKerningRules\<close> changes nothing: afterwards the pair \<open>A X\<close> is
  covered by the glyph pair rule and by the class pair rule.
\<close>


definition overlap_rules :: writer where
  "overlap_rules =
     \<lparr>kerning = [], groups = [], featxt = [],
      leftFeaClasses = [], rightFeaClasses = [],
      leftUfoClasses = [(''@L'', [''A'', ''B''])], rightUfoClasses = [(''@R'', [''X'', ''Y''])],
      glyphPairKerning = [((''A'', ''X''), -5)], leftClassKerning = [],
      rightClassKerning = [], classPairKerning = [((''@L'', ''@R''), -15)]\<rparr>"

theorem class_pair_still_covers_glyph_pair:
  "removeConflictingKerningRules overlap_rules = Inr overlap_rules \<and>
   glyphPairKerning overlap_rules = [((''A'', ''X''), -5)] \<and>
   classPairKerning overlap_rules = [((''@L'', ''@R''), -15)] \<and>
   map_of (dictUpdate (leftFeaClasses overlap_rules) (leftUfoClasses overlap_rules)) ''@L''
     = Some [''A'', ''B''] \<and>
   map_of (dictUpdate (rightFeaClasses overlap_rules) (rightUfoClasses overlap_rules)) ''@R''
     = Some [''X'', ''Y'']"
  by code_simp



subsection \<open>Renaming: the kerning table\<close>


lemma rekey_Cons:
  "rekey newKey ((k, v) # hits) kern =
     rekey newKey hits (AList.delete k (AList.update (newKey k) v kern))"
  by (simp add: rekey_def)

lemma rekey_distinct:
  "distinct (map fst kern) \<Longrightarrow> distinct (map fst (rekey newKey hits kern))"
proof (induction hits arbitrary: kern)
  case Nil
  then show ?case by (simp add: rekey_def)
next
  case (Cons hit hits)
  obtain k v where hit: "hit = (k, v)" by (cases hit)
  show ?case unfolding hit rekey_Cons
    by (rule Cons.IH) (simp add: distinct_delete distinct_update Cons.prems)
qed

lemma rekey_map:
  assumes "distinct (map fst hits)"
    and "inj_on newKey (fst ` set hits)"
    and "newKey ` fst ` set hits \<inter> fst ` set hits = {}"
  shows "map_of (rekey newKey hits kern) k' =
           (if k' \<in> fst ` set hits then None
            else case map_of (map (\<lambda>(k, v). (newKey k, v)) hits) k' of
                   Some v \<Rightarrow> Some v
                 | None \<Rightarrow> map_of kern k')"
  using assms
proof (induction hits arbitrary: kern)
  case Nil
  then show ?case by (simp add: rekey_def)
next
  case (Cons hit hits)
  obtain k v where hit: "hit = (k, v)" by (cases hit)
  from Cons.prems hit have d: "distinct (map fst hits)" and knot: "k \<notin> fst ` set hits"
    and inj: "inj_on newKey (fst ` set hits)"
    and disj: "newKey ` fst ` set hits \<inter> fst ` set hits = {}"
    and nk: "newKey k \<noteq> k" "newKey k \<notin> fst ` set hits"
    and nk2: "\<forall>k2 \<in> fst ` set hits. newKey k2 \<noteq> newKey k" "\<forall>k2 \<in> fst ` set hits. newKey k2 \<noteq> k"
    by (auto simp: inj_on_def)
  have none: "map_of (map (\<lambda>(k, v). (newKey k, v)) hits) (newKey k) = None"
    using nk2(1) by (force simp: map_of_eq_None_iff)
  have nonek: "map_of (map (\<lambda>(k, v). (newKey k, v)) hits) k = None"
    using nk2(2) by (force simp: map_of_eq_None_iff)
  have ih: "map_of (rekey newKey hits (AList.delete k (AList.update (newKey k) v kern))) k' =
           (if k' \<in> fst ` set hits then None
            else case map_of (map (\<lambda>(k, v). (newKey k, v)) hits) k' of
                   Some v \<Rightarrow> Some v
                 | None \<Rightarrow> map_of (AList.delete k (AList.update (newKey k) v kern)) k')"
    by (rule Cons.IH[OF d inj disj])
  show ?case
  proof (cases "k' = k")
    case True
    then show ?thesis using knot nonek ih by (simp add: hit rekey_Cons delete_conv')
  next
    case False
    show ?thesis
    proof (cases "k' = newKey k")
      case True
      then show ?thesis using nk none ih
        by (simp add: hit rekey_Cons delete_conv' update_conv')
    next
      case nn: False
      with False ih show ?thesis
        by (auto simp: hit rekey_Cons delete_conv' update_conv' split: option.splits)
    qed
  qed
qed

lemma hits_left_map:
  "map_of (map (\<lambda>(k, v). ((new, snd k), v)) (getGlyphKern kern name 0)) (l, r) =
     (if l = new then map_of kern (name, r) else None)"
  by (induction kern) (auto simp: getGlyphKern_def)

lemma hits_right_map:
  "map_of (map (\<lambda>(k, v). ((fst k, new), v)) (getGlyphKern kern name 1)) (l, r) =
     (if r = new then map_of kern (l, name) else None)"
  by (induction kern) (auto simp: getGlyphKern_def)

lemma hits_left_keys:
  "fst ` set (getGlyphKern kern name 0) = {k \<in> fst ` set kern. fst k = name}"
  by (force simp: getGlyphKern_def)

lemma hits_right_keys:
  "fst ` set (getGlyphKern kern name 1) = {k \<in> fst ` set kern. snd k = name}"
  by (force simp: getGlyphKern_def)

lemma hits_distinct:
  "distinct (map fst kern) \<Longrightarrow> distinct (map fst (getGlyphKern kern name index))"
  by (simp add: getGlyphKern_def distinct_map_filter)

lemma rekey_left_map:
  assumes "distinct (map fst kern)" and "new \<noteq> name"
  shows "map_of (rekey (\<lambda>pair. (new, snd pair)) (getGlyphKern kern name 0) kern) (l, r) =
           (if l = name then None
            else if l = new
            then (case map_of kern (name, r) of Some v \<Rightarrow> Some v | None \<Rightarrow> map_of kern (new, r))
            else map_of kern (l, r))"
proof -
  let ?hits = "getGlyphKern kern name 0"
  have inj: "inj_on (\<lambda>pair. (new, snd pair)) (fst ` set ?hits)"
    by (auto simp: inj_on_def hits_left_keys prod_eq_iff)
  have disj: "(\<lambda>pair. (new, snd pair)) ` fst ` set ?hits \<inter> fst ` set ?hits = {}"
    using assms(2) by (auto simp: hits_left_keys)
  have in_hits: "(l, r) \<in> fst ` set ?hits \<longleftrightarrow> l = name \<and> map_of kern (name, r) \<noteq> None"
    by (auto simp: hits_left_keys map_of_eq_None_iff)
  show ?thesis
    unfolding rekey_map[OF hits_distinct[OF assms(1)] inj disj] hits_left_map in_hits
    using assms(2) by (auto split: option.splits)
qed

lemma rekey_right_map:
  assumes "distinct (map fst kern)" and "new \<noteq> name"
  shows "map_of (rekey (\<lambda>pair. (fst pair, new)) (getGlyphKern kern name 1) kern) (l, r) =
           (if r = name then None
            else if r = new
            then (case map_of kern (l, name) of Some v \<Rightarrow> Some v | None \<Rightarrow> map_of kern (l, new))
            else map_of kern (l, r))"
proof -
  let ?hits = "getGlyphKern kern name 1"
  have inj: "inj_on (\<lambda>pair. (fst pair, new)) (fst ` set ?hits)"
    unfolding hits_right_keys by (auto simp: inj_on_def)
  have disj: "(\<lambda>pair. (fst pair, new)) ` fst ` set ?hits \<inter> fst ` set ?hits = {}"
    unfolding hits_right_keys using assms(2) by auto
  have in_hits: "(l, r) \<in> fst ` set ?hits \<longleftrightarrow> r = name \<and> map_of kern (l, name) \<noteq> None"
    unfolding hits_right_keys by (auto simp: map_of_eq_None_iff)
  show ?thesis
    unfolding rekey_map[OF hits_distinct[OF assms(1)] inj disj] hits_right_map in_hits
    using assms(2) by (auto split: option.splits)
qed

text \<open>
  The renamings that the two loops of \<^verbatim>\<open>_correctUfoClassNames\<close> perform, as
  pairs of the old and the new name, in the order of the loop.
\<close>

fun leftRenames :: "classes_t \<Rightarrow> writer \<Rightarrow> (string \<times> string) list" where
  "leftRenames [] st = []"
| "leftRenames (item # rest) st =
     (fst item, makeFeaClassName st (fst item)) # leftRenames rest (renameLeftClass st item)"

fun rightRenames :: "classes_t \<Rightarrow> writer \<Rightarrow> (string \<times> string) list" where
  "rightRenames [] st = []"
| "rightRenames (item # rest) st =
     (fst item, makeFeaClassName st (fst item)) # rightRenames rest (renameRightClass st item)"

definition newName :: "(string \<times> string) list \<Rightarrow> string \<Rightarrow> string" where
  "newName renames name = (case map_of renames name of Some n \<Rightarrow> n | None \<Rightarrow> name)"

text \<open>Every side of a kerning key that begins with \<open>@\<close> is a known class name.\<close>

definition kerningNamesKnown :: "writer \<Rightarrow> bool" where
  "kerningNamesKnown st \<longleftrightarrow>
     (\<forall>l r v. map_of (kerning st) (l, r) = Some v \<longrightarrow>
        (take 1 l = ''@'' \<longrightarrow> l \<in> set (existingClassNames st)) \<and>
        (take 1 r = ''@'' \<longrightarrow> r \<in> set (existingClassNames st)))"

lemma leftRenames_keys: "fst ` set (leftRenames xs st) = fst ` set xs"
  by (induction xs arbitrary: st) auto

lemma rightRenames_keys: "fst ` set (rightRenames xs st) = fst ` set xs"
  by (induction xs arbitrary: st) auto

lemma newName_other: "name \<notin> fst ` set renames \<Longrightarrow> newName renames name = name"
proof -
  assume "name \<notin> fst ` set renames"
  then have "map_of renames name = None" by (simp add: map_of_eq_None_iff)
  then show ?thesis by (simp add: newName_def)
qed

lemma makeFeaClassName_neq: "take 1 name \<noteq> ''@'' \<Longrightarrow> makeFeaClassName st name \<noteq> name"
  using makeFeaClassName_at[of st name] by auto

text \<open>One step of the left loop.\<close>

lemma renameLeftClass_fields:
  assumes "take 1 name \<noteq> ''@''"
  shows "leftUfoClasses (renameLeftClass st (name, members)) =
           AList.delete name
             (AList.update (makeFeaClassName st name) members (leftUfoClasses st))"
    and "kerning (renameLeftClass st (name, members)) =
           rekey (\<lambda>pair. (makeFeaClassName st name, snd pair))
             (getGlyphKern (kerning st) name 0) (kerning st)"
    and "leftFeaClasses (renameLeftClass st (name, members)) = leftFeaClasses st"
    and "rightFeaClasses (renameLeftClass st (name, members)) = rightFeaClasses st"
  using makeFeaClassName_neq[OF assms, of st] by (auto simp: renameLeftClass_eq)

lemma renameRightClass_fields:
  assumes "take 1 name \<noteq> ''@''"
  shows "rightUfoClasses (renameRightClass st (name, members)) =
           AList.delete name
             (AList.update (makeFeaClassName st name) members (rightUfoClasses st))"
    and "kerning (renameRightClass st (name, members)) =
           rekey (\<lambda>pair. (fst pair, makeFeaClassName st name))
             (getGlyphKern (kerning st) name 1) (kerning st)"
    and "leftFeaClasses (renameRightClass st (name, members)) = leftFeaClasses st"
    and "rightFeaClasses (renameRightClass st (name, members)) = rightFeaClasses st"
  using makeFeaClassName_neq[OF assms, of st] by (auto simp: renameRightClass_eq)

lemma renameLeftClass_distinct:
  "distinct (map fst (kerning st)) \<Longrightarrow> distinct (map fst (kerning (renameLeftClass st item)))"
  by (cases item) (auto simp: renameLeftClass_eq rekey_distinct)

lemma renameRightClass_distinct:
  "distinct (map fst (kerning st)) \<Longrightarrow> distinct (map fst (kerning (renameRightClass st item)))"
  by (cases item) (auto simp: renameRightClass_eq rekey_distinct)

lemma renameLeftClass_existing:
  assumes "take 1 name \<noteq> ''@''"
  shows "makeFeaClassName st name \<in> set (existingClassNames (renameLeftClass st (name, members)))"
    and "x \<in> set (existingClassNames st) \<Longrightarrow> x \<noteq> name \<Longrightarrow>
         x \<in> set (existingClassNames (renameLeftClass st (name, members)))"
  using makeFeaClassName_neq[OF assms, of st]
  by (auto simp: existingClassNames_def renameLeftClass_fields[OF assms] keys_delete dom_update)

lemma renameRightClass_existing:
  assumes "take 1 name \<noteq> ''@''"
  shows "makeFeaClassName st name \<in> set (existingClassNames (renameRightClass st (name, members)))"
    and "x \<in> set (existingClassNames st) \<Longrightarrow> x \<noteq> name \<Longrightarrow>
         x \<in> set (existingClassNames (renameRightClass st (name, members)))"
  using makeFeaClassName_neq[OF assms, of st]
  by (auto simp: existingClassNames_def renameRightClass_fields[OF assms] keys_delete dom_update)

lemma fresh_not_left_side:
  assumes "kerningNamesKnown st"
  shows "map_of (kerning st) (makeFeaClassName st name, r) = None"
proof (cases "map_of (kerning st) (makeFeaClassName st name, r)")
  case None
  then show ?thesis .
next
  case (Some v)
  with assms makeFeaClassName_at[of st name]
  have "makeFeaClassName st name \<in> set (existingClassNames st)"
    unfolding kerningNamesKnown_def by blast
  with makeFeaClassName_free[of st name] show ?thesis by simp
qed

lemma fresh_not_right_side:
  assumes "kerningNamesKnown st"
  shows "map_of (kerning st) (l, makeFeaClassName st name) = None"
proof (cases "map_of (kerning st) (l, makeFeaClassName st name)")
  case None
  then show ?thesis .
next
  case (Some v)
  with assms makeFeaClassName_at[of st name]
  have "makeFeaClassName st name \<in> set (existingClassNames st)"
    unfolding kerningNamesKnown_def by blast
  with makeFeaClassName_free[of st name] show ?thesis by simp
qed

lemma renameLeftClass_kerning:
  assumes "take 1 name \<noteq> ''@''" and "distinct (map fst (kerning st))" and "kerningNamesKnown st"
  shows "map_of (kerning (renameLeftClass st (name, members))) (l, r) =
           (if l = name then None
            else if l = makeFeaClassName st name then map_of (kerning st) (name, r)
            else map_of (kerning st) (l, r))"
  unfolding renameLeftClass_fields(2)[OF assms(1)]
    rekey_left_map[OF assms(2) makeFeaClassName_neq[OF assms(1)]]
  using fresh_not_left_side[OF assms(3), of name r]
  by (auto split: option.splits)

lemma renameRightClass_kerning:
  assumes "take 1 name \<noteq> ''@''" and "distinct (map fst (kerning st))" and "kerningNamesKnown st"
  shows "map_of (kerning (renameRightClass st (name, members))) (l, r) =
           (if r = name then None
            else if r = makeFeaClassName st name then map_of (kerning st) (l, name)
            else map_of (kerning st) (l, r))"
  unfolding renameRightClass_fields(2)[OF assms(1)]
    rekey_right_map[OF assms(2) makeFeaClassName_neq[OF assms(1)]]
  using fresh_not_right_side[OF assms(3), of l name]
  by (auto split: option.splits)

lemma renameLeftClass_known:
  assumes "take 1 name \<noteq> ''@''" and "distinct (map fst (kerning st))" and "kerningNamesKnown st"
  shows "kerningNamesKnown (renameLeftClass st (name, members))"
  unfolding kerningNamesKnown_def
proof (intro allI impI conjI)
  fix l r v
  assume e: "map_of (kerning (renameLeftClass st (name, members))) (l, r) = Some v"
  then have ln: "l \<noteq> name" by (auto simp: renameLeftClass_kerning[OF assms])
  from e have old: "l = makeFeaClassName st name \<and> map_of (kerning st) (name, r) = Some v \<or>
               l \<noteq> makeFeaClassName st name \<and> map_of (kerning st) (l, r) = Some v"
    by (auto simp: renameLeftClass_kerning[OF assms] split: if_splits)
  {
    assume at: "take 1 l = ''@''"
    show "l \<in> set (existingClassNames (renameLeftClass st (name, members)))"
      using old at ln assms(3) renameLeftClass_existing[OF assms(1)]
      unfolding kerningNamesKnown_def by blast
  }
  {
    assume at: "take 1 r = ''@''"
    with assms(1) have "r \<noteq> name" by auto
    moreover from old at assms(3) have "r \<in> set (existingClassNames st)"
      unfolding kerningNamesKnown_def by blast
    ultimately show "r \<in> set (existingClassNames (renameLeftClass st (name, members)))"
      by (rule renameLeftClass_existing(2)[OF assms(1), rotated])
  }
qed

lemma renameRightClass_known:
  assumes "take 1 name \<noteq> ''@''" and "distinct (map fst (kerning st))" and "kerningNamesKnown st"
  shows "kerningNamesKnown (renameRightClass st (name, members))"
  unfolding kerningNamesKnown_def
proof (intro allI impI conjI)
  fix l r v
  assume e: "map_of (kerning (renameRightClass st (name, members))) (l, r) = Some v"
  then have rn: "r \<noteq> name" by (auto simp: renameRightClass_kerning[OF assms])
  from e have old: "r = makeFeaClassName st name \<and> map_of (kerning st) (l, name) = Some v \<or>
               r \<noteq> makeFeaClassName st name \<and> map_of (kerning st) (l, r) = Some v"
    by (auto simp: renameRightClass_kerning[OF assms] split: if_splits)
  {
    assume at: "take 1 r = ''@''"
    show "r \<in> set (existingClassNames (renameRightClass st (name, members)))"
      using old at rn assms(3) renameRightClass_existing[OF assms(1)]
      unfolding kerningNamesKnown_def by blast
  }
  {
    assume at: "take 1 l = ''@''"
    with assms(1) have "l \<noteq> name" by auto
    moreover from old at assms(3) have "l \<in> set (existingClassNames st)"
      unfolding kerningNamesKnown_def by blast
    ultimately show "l \<in> set (existingClassNames (renameRightClass st (name, members)))"
      by (rule renameRightClass_existing(2)[OF assms(1), rotated])
  }
qed

lemma left_pass_inv:
  assumes "\<forall>n \<in> fst ` set xs. take 1 n \<noteq> ''@''"
    and "distinct (map fst (kerning s))" and "kerningNamesKnown s"
  shows "distinct (map fst (kerning (fold (\<lambda>item s. renameLeftClass s item) xs s))) \<and>
         kerningNamesKnown (fold (\<lambda>item s. renameLeftClass s item) xs s)"
  using assms
proof (induction xs arbitrary: s)
  case Nil
  then show ?case by simp
next
  case (Cons item xs)
  obtain name members where item: "item = (name, members)" by (cases item)
  from Cons.prems(1) item have n: "take 1 name \<noteq> ''@''"
    and rest: "\<forall>n \<in> fst ` set xs. take 1 n \<noteq> ''@''" by auto
  have "distinct (map fst (kerning (renameLeftClass s item)))"
    by (rule renameLeftClass_distinct[OF Cons.prems(2)])
  moreover have "kerningNamesKnown (renameLeftClass s item)"
    unfolding item by (rule renameLeftClass_known[OF n Cons.prems(2,3)])
  ultimately show ?case using Cons.IH[OF rest] by simp
qed

lemma right_pass_inv:
  assumes "\<forall>n \<in> fst ` set xs. take 1 n \<noteq> ''@''"
    and "distinct (map fst (kerning s))" and "kerningNamesKnown s"
  shows "distinct (map fst (kerning (fold (\<lambda>item s. renameRightClass s item) xs s))) \<and>
         kerningNamesKnown (fold (\<lambda>item s. renameRightClass s item) xs s)"
  using assms
proof (induction xs arbitrary: s)
  case Nil
  then show ?case by simp
next
  case (Cons item xs)
  obtain name members where item: "item = (name, members)" by (cases item)
  from Cons.prems(1) item have n: "take 1 name \<noteq> ''@''"
    and rest: "\<forall>n \<in> fst ` set xs. take 1 n \<noteq> ''@''" by auto
  have "distinct (map fst (kerning (renameRightClass s item)))"
    by (rule renameRightClass_distinct[OF Cons.prems(2)])
  moreover have "kerningNamesKnown (renameRightClass s item)"
    unfolding item by (rule renameRightClass_known[OF n Cons.prems(2,3)])
  ultimately show ?case using Cons.IH[OF rest] by simp
qed

lemma left_pass_forward:
  assumes "\<forall>n \<in> fst ` set xs. take 1 n \<noteq> ''@''"
    and "distinct (map fst (kerning s))" and "kerningNamesKnown s"
    and "map_of (kerning s) (l, r) = Some v"
  shows "map_of (kerning (fold (\<lambda>item s. renameLeftClass s item) xs s))
           (newName (leftRenames xs s) l, r) = Some v"
  using assms
proof (induction xs arbitrary: s l)
  case Nil
  then show ?case by (simp add: newName_def)
next
  case (Cons item xs)
  obtain name members where item: "item = (name, members)" by (cases item)
  let ?new = "makeFeaClassName s name"
  let ?s1 = "renameLeftClass s item"
  from Cons.prems(1) item have n: "take 1 name \<noteq> ''@''"
    and rest: "\<forall>n \<in> fst ` set xs. take 1 n \<noteq> ''@''" by auto
  have d1: "distinct (map fst (kerning ?s1))"
    by (rule renameLeftClass_distinct[OF Cons.prems(2)])
  have k1: "kerningNamesKnown ?s1"
    unfolding item by (rule renameLeftClass_known[OF n Cons.prems(2,3)])
  have step: "map_of (kerning ?s1) (if l = name then ?new else l, r) = Some v"
  proof (cases "l = name")
    case True
    with Cons.prems(4) makeFeaClassName_neq[OF n, of s] show ?thesis
      by (simp add: item renameLeftClass_kerning[OF n Cons.prems(2,3)])
  next
    case False
    have "l \<noteq> ?new"
      using fresh_not_left_side[OF Cons.prems(3), of name r] Cons.prems(4) by auto
    with False Cons.prems(4) show ?thesis
      by (simp add: item renameLeftClass_kerning[OF n Cons.prems(2,3)])
  qed
  have nn: "newName (leftRenames (item # xs) s) l =
            newName (leftRenames xs ?s1) (if l = name then ?new else l)"
  proof (cases "l = name")
    case True
    have "?new \<notin> fst ` set (leftRenames xs ?s1)"
      using rest makeFeaClassName_at[of s name] by (auto simp: leftRenames_keys)
    then have "newName (leftRenames xs ?s1) ?new = ?new" by (rule newName_other)
    with True show ?thesis by (simp add: newName_def item)
  next
    case False
    then show ?thesis by (simp add: newName_def item)
  qed
  show ?case
    unfolding nn using Cons.IH[OF rest d1 k1 step] by simp
qed

lemma right_pass_forward:
  assumes "\<forall>n \<in> fst ` set xs. take 1 n \<noteq> ''@''"
    and "distinct (map fst (kerning s))" and "kerningNamesKnown s"
    and "map_of (kerning s) (l, r) = Some v"
  shows "map_of (kerning (fold (\<lambda>item s. renameRightClass s item) xs s))
           (l, newName (rightRenames xs s) r) = Some v"
  using assms
proof (induction xs arbitrary: s r)
  case Nil
  then show ?case by (simp add: newName_def)
next
  case (Cons item xs)
  obtain name members where item: "item = (name, members)" by (cases item)
  let ?new = "makeFeaClassName s name"
  let ?s1 = "renameRightClass s item"
  from Cons.prems(1) item have n: "take 1 name \<noteq> ''@''"
    and rest: "\<forall>n \<in> fst ` set xs. take 1 n \<noteq> ''@''" by auto
  have d1: "distinct (map fst (kerning ?s1))"
    by (rule renameRightClass_distinct[OF Cons.prems(2)])
  have k1: "kerningNamesKnown ?s1"
    unfolding item by (rule renameRightClass_known[OF n Cons.prems(2,3)])
  have step: "map_of (kerning ?s1) (l, if r = name then ?new else r) = Some v"
  proof (cases "r = name")
    case True
    with Cons.prems(4) makeFeaClassName_neq[OF n, of s] show ?thesis
      by (simp add: item renameRightClass_kerning[OF n Cons.prems(2,3)])
  next
    case False
    have "r \<noteq> ?new"
      using fresh_not_right_side[OF Cons.prems(3), of l name] Cons.prems(4) by auto
    with False Cons.prems(4) show ?thesis
      by (simp add: item renameRightClass_kerning[OF n Cons.prems(2,3)])
  qed
  have nn: "newName (rightRenames (item # xs) s) r =
            newName (rightRenames xs ?s1) (if r = name then ?new else r)"
  proof (cases "r = name")
    case True
    have "?new \<notin> fst ` set (rightRenames xs ?s1)"
      using rest makeFeaClassName_at[of s name] by (auto simp: rightRenames_keys)
    then have "newName (rightRenames xs ?s1) ?new = ?new" by (rule newName_other)
    with True show ?thesis by (simp add: newName_def item)
  next
    case False
    then show ?thesis by (simp add: newName_def item)
  qed
  show ?case
    unfolding nn using Cons.IH[OF rest d1 k1 step] by simp
qed

text \<open>No entry stays under an old name.\<close>

lemma left_pass_plain_none:
  assumes "\<forall>n \<in> fst ` set xs. take 1 n \<noteq> ''@''"
    and "distinct (map fst (kerning s))" and "kerningNamesKnown s"
    and "take 1 l \<noteq> ''@''" and "map_of (kerning s) (l, r) = None \<or> l \<in> fst ` set xs"
  shows "map_of (kerning (fold (\<lambda>item s. renameLeftClass s item) xs s)) (l, r) = None"
  using assms
proof (induction xs arbitrary: s)
  case Nil
  then show ?case by simp
next
  case (Cons item xs)
  obtain name members where item: "item = (name, members)" by (cases item)
  let ?s1 = "renameLeftClass s item"
  from Cons.prems(1) item have n: "take 1 name \<noteq> ''@''"
    and rest: "\<forall>n \<in> fst ` set xs. take 1 n \<noteq> ''@''" by auto
  have d1: "distinct (map fst (kerning ?s1))"
    by (rule renameLeftClass_distinct[OF Cons.prems(2)])
  have k1: "kerningNamesKnown ?s1"
    unfolding item by (rule renameLeftClass_known[OF n Cons.prems(2,3)])
  have "l \<noteq> makeFeaClassName s name"
    using Cons.prems(4) makeFeaClassName_at[of s name] by auto
  then have "map_of (kerning ?s1) (l, r) = None \<or> l \<in> fst ` set xs"
    using Cons.prems(5) by (auto simp: item renameLeftClass_kerning[OF n Cons.prems(2,3)])
  from Cons.IH[OF rest d1 k1 Cons.prems(4) this] show ?case by simp
qed

lemma right_pass_plain_none:
  assumes "\<forall>n \<in> fst ` set xs. take 1 n \<noteq> ''@''"
    and "distinct (map fst (kerning s))" and "kerningNamesKnown s"
    and "take 1 r \<noteq> ''@''" and "map_of (kerning s) (l, r) = None \<or> r \<in> fst ` set xs"
  shows "map_of (kerning (fold (\<lambda>item s. renameRightClass s item) xs s)) (l, r) = None"
  using assms
proof (induction xs arbitrary: s)
  case Nil
  then show ?case by simp
next
  case (Cons item xs)
  obtain name members where item: "item = (name, members)" by (cases item)
  let ?s1 = "renameRightClass s item"
  from Cons.prems(1) item have n: "take 1 name \<noteq> ''@''"
    and rest: "\<forall>n \<in> fst ` set xs. take 1 n \<noteq> ''@''" by auto
  have d1: "distinct (map fst (kerning ?s1))"
    by (rule renameRightClass_distinct[OF Cons.prems(2)])
  have k1: "kerningNamesKnown ?s1"
    unfolding item by (rule renameRightClass_known[OF n Cons.prems(2,3)])
  have "r \<noteq> makeFeaClassName s name"
    using Cons.prems(4) makeFeaClassName_at[of s name] by auto
  then have "map_of (kerning ?s1) (l, r) = None \<or> r \<in> fst ` set xs"
    using Cons.prems(5) by (auto simp: item renameRightClass_kerning[OF n Cons.prems(2,3)])
  from Cons.IH[OF rest d1 k1 Cons.prems(4) this] show ?case by simp
qed

lemma right_pass_left_none:
  assumes "\<forall>n \<in> fst ` set xs. take 1 n \<noteq> ''@''"
    and "distinct (map fst (kerning s))" and "kerningNamesKnown s"
    and "\<forall>r. map_of (kerning s) (l, r) = None"
  shows "\<forall>r. map_of (kerning (fold (\<lambda>item s. renameRightClass s item) xs s)) (l, r) = None"
  using assms
proof (induction xs arbitrary: s)
  case Nil
  then show ?case by simp
next
  case (Cons item xs)
  obtain name members where item: "item = (name, members)" by (cases item)
  let ?s1 = "renameRightClass s item"
  from Cons.prems(1) item have n: "take 1 name \<noteq> ''@''"
    and rest: "\<forall>n \<in> fst ` set xs. take 1 n \<noteq> ''@''" by auto
  have d1: "distinct (map fst (kerning ?s1))"
    by (rule renameRightClass_distinct[OF Cons.prems(2)])
  have k1: "kerningNamesKnown ?s1"
    unfolding item by (rule renameRightClass_known[OF n Cons.prems(2,3)])
  have "\<forall>r. map_of (kerning ?s1) (l, r) = None"
    using Cons.prems(4) by (simp add: item renameRightClass_kerning[OF n Cons.prems(2,3)])
  from Cons.IH[OF rest d1 k1 this] show ?case by simp
qed

text \<open>The registries.\<close>

lemma left_pass_registry_keep:
  assumes "\<forall>n \<in> fst ` set xs. take 1 n \<noteq> ''@''"
    and "take 1 k = ''@''" and "map_of (leftUfoClasses s) k = Some m"
  shows "map_of (leftUfoClasses (fold (\<lambda>item s. renameLeftClass s item) xs s)) k = Some m"
  using assms
proof (induction xs arbitrary: s)
  case Nil
  then show ?case by simp
next
  case (Cons item xs)
  obtain name members where item: "item = (name, members)" by (cases item)
  from Cons.prems(1) item have n: "take 1 name \<noteq> ''@''"
    and rest: "\<forall>n \<in> fst ` set xs. take 1 n \<noteq> ''@''" by auto
  from Cons.prems(3) have "k \<in> fst ` set (leftUfoClasses s)"
    by (metis domI dom_map_of_conv_image_fst)
  then have "k \<in> set (existingClassNames s)" by (simp add: existingClassNames_def)
  with makeFeaClassName_free[of s name] have "k \<noteq> makeFeaClassName s name" by auto
  moreover from n Cons.prems(2) have "k \<noteq> name" by auto
  ultimately have "map_of (leftUfoClasses (renameLeftClass s item)) k = Some m"
    using Cons.prems(3)
    by (simp add: item renameLeftClass_fields(1)[OF n] delete_conv' update_conv')
  from Cons.IH[OF rest Cons.prems(2) this] show ?case by simp
qed

lemma right_pass_registry_keep:
  assumes "\<forall>n \<in> fst ` set xs. take 1 n \<noteq> ''@''"
    and "take 1 k = ''@''" and "map_of (rightUfoClasses s) k = Some m"
  shows "map_of (rightUfoClasses (fold (\<lambda>item s. renameRightClass s item) xs s)) k = Some m"
  using assms
proof (induction xs arbitrary: s)
  case Nil
  then show ?case by simp
next
  case (Cons item xs)
  obtain name members where item: "item = (name, members)" by (cases item)
  from Cons.prems(1) item have n: "take 1 name \<noteq> ''@''"
    and rest: "\<forall>n \<in> fst ` set xs. take 1 n \<noteq> ''@''" by auto
  from Cons.prems(3) have "k \<in> fst ` set (rightUfoClasses s)"
    by (metis domI dom_map_of_conv_image_fst)
  then have "k \<in> set (existingClassNames s)" by (simp add: existingClassNames_def)
  with makeFeaClassName_free[of s name] have "k \<noteq> makeFeaClassName s name" by auto
  moreover from n Cons.prems(2) have "k \<noteq> name" by auto
  ultimately have "map_of (rightUfoClasses (renameRightClass s item)) k = Some m"
    using Cons.prems(3)
    by (simp add: item renameRightClass_fields(1)[OF n] delete_conv' update_conv')
  from Cons.IH[OF rest Cons.prems(2) this] show ?case by simp
qed

lemma left_pass_registry:
  assumes "\<forall>n \<in> fst ` set xs. take 1 n \<noteq> ''@''" and "distinct (map fst xs)"
    and "(name, members) \<in> set xs"
  shows "map_of (leftUfoClasses (fold (\<lambda>item s. renameLeftClass s item) xs s))
           (newName (leftRenames xs s) name) = Some members"
  using assms
proof (induction xs arbitrary: s)
  case Nil
  then show ?case by simp
next
  case (Cons item xs)
  obtain name0 members0 where item: "item = (name0, members0)" by (cases item)
  let ?new = "makeFeaClassName s name0"
  let ?s1 = "renameLeftClass s item"
  from Cons.prems(1) item have n: "take 1 name0 \<noteq> ''@''"
    and rest: "\<forall>n \<in> fst ` set xs. take 1 n \<noteq> ''@''" by auto
  from Cons.prems(2) item have d: "distinct (map fst xs)" and fresh: "name0 \<notin> fst ` set xs"
    by auto
  show ?case
  proof (cases "(name, members) = item")
    case True
    then have eq: "name = name0" "members = members0" using item by auto
    have "map_of (leftUfoClasses ?s1) ?new = Some members0"
      using makeFeaClassName_neq[OF n, of s]
      by (simp add: item renameLeftClass_fields(1)[OF n] delete_conv' update_conv')
    from left_pass_registry_keep[OF rest makeFeaClassName_at this]
    show ?thesis by (simp add: eq item newName_def)
  next
    case False
    with Cons.prems(3) have m: "(name, members) \<in> set xs" by auto
    with fresh have "name \<noteq> name0" by force
    then have "newName (leftRenames (item # xs) s) name = newName (leftRenames xs ?s1) name"
      by (simp add: newName_def item)
    with Cons.IH[OF rest d m, of ?s1] show ?thesis by simp
  qed
qed

lemma right_pass_registry:
  assumes "\<forall>n \<in> fst ` set xs. take 1 n \<noteq> ''@''" and "distinct (map fst xs)"
    and "(name, members) \<in> set xs"
  shows "map_of (rightUfoClasses (fold (\<lambda>item s. renameRightClass s item) xs s))
           (newName (rightRenames xs s) name) = Some members"
  using assms
proof (induction xs arbitrary: s)
  case Nil
  then show ?case by simp
next
  case (Cons item xs)
  obtain name0 members0 where item: "item = (name0, members0)" by (cases item)
  let ?new = "makeFeaClassName s name0"
  let ?s1 = "renameRightClass s item"
  from Cons.prems(1) item have n: "take 1 name0 \<noteq> ''@''"
    and rest: "\<forall>n \<in> fst ` set xs. take 1 n \<noteq> ''@''" by auto
  from Cons.prems(2) item have d: "distinct (map fst xs)" and fresh: "name0 \<notin> fst ` set xs"
    by auto
  show ?case
  proof (cases "(name, members) = item")
    case True
    then have eq: "name = name0" "members = members0" using item by auto
    have "map_of (rightUfoClasses ?s1) ?new = Some members0"
      using makeFeaClassName_neq[OF n, of s]
      by (simp add: item renameRightClass_fields(1)[OF n] delete_conv' update_conv')
    from right_pass_registry_keep[OF rest makeFeaClassName_at this]
    show ?thesis by (simp add: eq item newName_def)
  next
    case False
    with Cons.prems(3) have m: "(name, members) \<in> set xs" by auto
    with fresh have "name \<noteq> name0" by force
    then have "newName (rightRenames (item # xs) s) name = newName (rightRenames xs ?s1) name"
      by (simp add: newName_def item)
    with Cons.IH[OF rest d m, of ?s1] show ?thesis by simp
  qed
qed

lemma right_pass_keys_fresh:
  assumes "\<forall>n \<in> fst ` set (rightUfoClasses s).
             n \<in> fst ` set xs \<or> n \<notin> fst ` set (leftUfoClasses s)"
  shows "\<forall>n \<in> fst ` set (rightUfoClasses (fold (\<lambda>item s. renameRightClass s item) xs s)).
           n \<notin> fst ` set (leftUfoClasses s)"
  using assms
proof (induction xs arbitrary: s)
  case Nil
  then show ?case by simp
next
  case (Cons item xs)
  obtain name members where item: "item = (name, members)" by (cases item)
  let ?s1 = "renameRightClass s item"
  have l: "leftUfoClasses ?s1 = leftUfoClasses s" by simp
  have new: "makeFeaClassName s name \<notin> fst ` set (leftUfoClasses s)"
    using makeFeaClassName_free[of s name] by (auto simp: existingClassNames_def)
  have "\<forall>n \<in> fst ` set (rightUfoClasses ?s1).
             n \<in> fst ` set xs \<or> n \<notin> fst ` set (leftUfoClasses ?s1)"
  proof
    fix n assume "n \<in> fst ` set (rightUfoClasses ?s1)"
    with renameRightClass_keys[of s name members] item
    have "n = makeFeaClassName s name \<or> (n \<in> fst ` set (rightUfoClasses s) \<and> n \<noteq> name)"
      by auto
    then show "n \<in> fst ` set xs \<or> n \<notin> fst ` set (leftUfoClasses ?s1)"
    proof
      assume "n = makeFeaClassName s name"
      with new l show ?thesis by simp
    next
      assume a: "n \<in> fst ` set (rightUfoClasses s) \<and> n \<noteq> name"
      with Cons.prems have "n \<in> fst ` set (item # xs) \<or> n \<notin> fst ` set (leftUfoClasses s)"
        by blast
      with a item l show ?thesis by auto
    qed
  qed
  from Cons.IH[OF this] show ?case by simp
qed

lemma right_pass_registry_distinct:
  "distinct (map fst (rightUfoClasses s)) \<Longrightarrow>
   distinct (map fst (rightUfoClasses (fold (\<lambda>item s. renameRightClass s item) xs s)))"
proof (rule fold_invariant[where P = "\<lambda>s. distinct (map fst (rightUfoClasses s))"])
  fix item :: "string \<times> string list" and s :: writer
  assume "distinct (map fst (rightUfoClasses s))"
  then show "distinct (map fst (rightUfoClasses (renameRightClass s item)))"
    by (cases item) (auto simp: renameRightClass_eq distinct_delete distinct_update)
qed

text \<open>Merged dictionaries.\<close>

lemma dictUpdate_Cons: "dictUpdate d ((k, v) # other) = dictUpdate (AList.update k v d) other"
  by (simp add: dictUpdate_def)

lemma dictUpdate_other:
  "k \<notin> fst ` set other \<Longrightarrow> map_of (dictUpdate d other) k = map_of d k"
proof (induction other arbitrary: d)
  case Nil
  then show ?case by (simp add: dictUpdate_def)
next
  case (Cons item other)
  obtain k0 v0 where item: "item = (k0, v0)" by (cases item)
  with Cons.prems have "k \<noteq> k0" "k \<notin> fst ` set other" by auto
  then show ?case using Cons.IH[of "AList.update k0 v0 d"]
    by (simp add: item dictUpdate_Cons update_conv')
qed

lemma dictUpdate_in:
  "distinct (map fst other) \<Longrightarrow> map_of other k = Some v \<Longrightarrow>
   map_of (dictUpdate d other) k = Some v"
proof (induction other arbitrary: d)
  case Nil
  then show ?case by simp
next
  case (Cons item other)
  obtain k0 v0 where item: "item = (k0, v0)" by (cases item)
  show ?case
  proof (cases "k = k0")
    case True
    with Cons.prems item have "v = v0" "k \<notin> fst ` set other" by auto
    then show ?thesis using True
      by (simp add: item dictUpdate_Cons dictUpdate_other update_conv')
  next
    case False
    with Cons.prems item have "distinct (map fst other)" "map_of other k = Some v" by auto
    from Cons.IH[OF this] show ?thesis by (simp add: item dictUpdate_Cons)
  qed
qed

lemma addGlyphClasses_line:
  assumes "map_of (dictUpdate (leftUfoClasses st) (rightUfoClasses st)) key = Some members"
  shows "key @ '' = ['' @ join '' '' members @ ''];'' \<in> set (addGlyphClasses st)"
proof -
  from assms have "(key, members) \<in> set (dictUpdate (leftUfoClasses st) (rightUfoClasses st))"
    by (rule map_of_SomeD)
  then have "(key, members) \<in> set (sort (dictUpdate (leftUfoClasses st) (rightUfoClasses st)))"
    by simp
  then show ?thesis unfolding addGlyphClasses_def by force
qed

text \<open>The first free suffix.\<close>

lemma nameLoop_least:
  assumes "name \<in> set existing"
  shows "\<exists>k\<ge>i. nameLoop origName existing name i = suffixed origName k \<and>
               suffixed origName k \<notin> set existing \<and>
               (\<forall>j. i \<le> j \<and> j < k \<longrightarrow> suffixed origName j \<in> set existing)"
  using assms
proof (induction origName existing name i rule: nameLoop.induct)
  case (1 origName existing name i)
  have unfold: "nameLoop origName existing name i =
                nameLoop origName existing (suffixed origName i) (i + 1)"
    using "1.prems" by (subst nameLoop.simps) simp
  show ?case
  proof (cases "suffixed origName i \<in> set existing")
    case False
    then have "nameLoop origName existing (suffixed origName i) (i + 1) = suffixed origName i"
      by (subst nameLoop.simps) simp
    with False unfold show ?thesis by (intro exI[of _ i]) auto
  next
    case True
    from "1.IH"[OF "1.prems" True] obtain k where k: "i + 1 \<le> k"
      "nameLoop origName existing (suffixed origName i) (i + 1) = suffixed origName k"
      "suffixed origName k \<notin> set existing"
      "\<forall>j. i + 1 \<le> j \<and> j < k \<longrightarrow> suffixed origName j \<in> set existing"
      by blast
    have "\<forall>j. i \<le> j \<and> j < k \<longrightarrow> suffixed origName j \<in> set existing"
    proof (intro allI impI)
      fix j assume "i \<le> j \<and> j < k"
      then have "j = i \<or> (i + 1 \<le> j \<and> j < k)" by auto
      with True k(4) show "suffixed origName j \<in> set existing" by blast
    qed
    with k unfold show ?thesis by (intro exI[of _ k]) auto
  qed
qed

lemma makeFeaClassName_least:
  "makeFeaClassName st name =
     (let origName = CHR ''@'' # filter legalChar name in
      if origName \<notin> set (existingClassNames st) then origName
      else suffixed origName
             (LEAST i. 1 \<le> i \<and> suffixed origName i \<notin> set (existingClassNames st)))"
proof -
  define origName where "origName = CHR ''@'' # filter legalChar name"
  define existing where "existing = existingClassNames st"
  have "nameLoop origName existing origName 1 =
     (if origName \<notin> set existing then origName
      else suffixed origName (LEAST i. 1 \<le> i \<and> suffixed origName i \<notin> set existing))"
  proof (cases "origName \<in> set existing")
    case False
    then show ?thesis by (subst nameLoop.simps) simp
  next
    case True
    from nameLoop_least[OF True, of 1 origName] obtain k where k: "1 \<le> k"
      "nameLoop origName existing origName 1 = suffixed origName k"
      "suffixed origName k \<notin> set existing"
      "\<forall>j. 1 \<le> j \<and> j < k \<longrightarrow> suffixed origName j \<in> set existing"
      by blast
    have "(LEAST i. 1 \<le> i \<and> suffixed origName i \<notin> set existing) = k"
    proof (rule Least_equality)
      show "1 \<le> k \<and> suffixed origName k \<notin> set existing" using k by simp
    next
      fix y assume "1 \<le> y \<and> suffixed origName y \<notin> set existing"
      with k(4) show "k \<le> y" by (meson not_le)
    qed
    with k(2) True show ?thesis by simp
  qed
  then show ?thesis
    by (simp add: makeFeaClassName_def Let_def origName_def existing_def)
qed

definition leftNames :: "writer \<Rightarrow> (string \<times> string) list" where
  "leftNames st = leftRenames (leftUfoClasses st) st"

definition rightNames :: "writer \<Rightarrow> (string \<times> string) list" where
  "rightNames st = rightRenames (rightUfoClasses (correctLeftNames st)) (correctLeftNames st)"

lemma leftRenames_made:
  "(old, new) \<in> set (leftRenames xs s) \<Longrightarrow> \<exists>s'. new = makeFeaClassName s' old"
  by (induction xs arbitrary: s) auto

lemma rightRenames_made:
  "(old, new) \<in> set (rightRenames xs s) \<Longrightarrow> \<exists>s'. new = makeFeaClassName s' old"
  by (induction xs arbitrary: s) auto

lemma newName_made:
  assumes "name \<in> fst ` set renames"
    and "\<And>old new. (old, new) \<in> set renames \<Longrightarrow> \<exists>s'. new = makeFeaClassName s' old"
  shows "\<exists>s'. newName renames name = makeFeaClassName s' name"
proof -
  from assms(1) obtain new where n: "map_of renames name = Some new"
    by (metis map_of_eq_None_iff not_Some_eq)
  then have "(name, new) \<in> set renames" by (rule map_of_SomeD)
  from assms(2)[OF this] n show ?thesis by (simp add: newName_def)
qed

text \<open>
  C4, amended. \<^verbatim>\<open>_makeFeaClassName\<close> strips every character outside
  \<^verbatim>\<open>A-Za-z0-9._\<close>, puts \<open>@\<close> in front and, when that name is one of the known class
  names (feature or group classes, left or right), appends \<open>_i\<close> for the first
  \<open>i\<close> from 1 on that gives a free name.

  For \<^verbatim>\<open>_correctUfoClassNames\<close>: the group classes are named after the two group
  patterns, the registries and the kerning table are dictionaries, and (this is
  what the amendment adds) every side of a kerning key that begins with \<open>@\<close> is
  an already known class name. Then every entry \<open>(l, r)\<close> of the kerning table is
  found afterwards, with its value, under the pair in which each side that is a
  group class (left side: a left class, right side: a right class) is replaced
  by the new name of the class; no entry is left under an old group name on its
  side; the members of each class are registered under its new name, which is
  a name made by \<^verbatim>\<open>_makeFeaClassName\<close> from the old one; and the declaration line
  of the class is written with the new name.
\<close>


theorem group_names_corrected:
  assumes leftNamed: "\<forall>n \<in> fst ` set (leftUfoClasses st). isClassName leftUfoGroupRe n"
    and rightNamed: "\<forall>n \<in> fst ` set (rightUfoClasses st). isClassName rightUfoGroupRe n"
    and leftDict: "distinct (map fst (leftUfoClasses st))"
    and rightDict: "distinct (map fst (rightUfoClasses st))"
    and kernDict: "distinct (map fst (kerning st))"
    and known: "\<forall>((l, r), v) \<in> set (kerning st).
                  (take 1 l = ''@'' \<longrightarrow> l \<in> set (existingClassNames st)) \<and>
                  (take 1 r = ''@'' \<longrightarrow> r \<in> set (existingClassNames st))"
  shows
    "(\<forall>s name. makeFeaClassName s name =
        (let origName = CHR ''@'' # filter legalChar name in
         if origName \<notin> set (existingClassNames s) then origName
         else suffixed origName
                (LEAST i. 1 \<le> i \<and> suffixed origName i \<notin> set (existingClassNames s)))) \<and>
     (\<forall>l r v. ((l, r), v) \<in> set (kerning st) \<longrightarrow>
        map_of (kerning (correctUfoClassNames st))
               (newName (leftNames st) l, newName (rightNames st) r) = Some v) \<and>
     (\<forall>(name, members) \<in> set (leftUfoClasses st).
        (\<exists>s. newName (leftNames st) name = makeFeaClassName s name) \<and>
        (\<forall>r. map_of (kerning (correctUfoClassNames st)) (name, r) = None) \<and>
        map_of (leftUfoClasses (correctUfoClassNames st)) (newName (leftNames st) name)
          = Some members \<and>
        newName (leftNames st) name @ '' = ['' @ join '' '' members @ ''];''
          \<in> set (addGlyphClasses (correctUfoClassNames st))) \<and>
     (\<forall>(name, members) \<in> set (rightUfoClasses st).
        (\<exists>s. newName (rightNames st) name = makeFeaClassName s name) \<and>
        (\<forall>l. map_of (kerning (correctUfoClassNames st)) (l, name) = None) \<and>
        map_of (rightUfoClasses (correctUfoClassNames st)) (newName (rightNames st) name)
          = Some members \<and>
        newName (rightNames st) name @ '' = ['' @ join '' '' members @ ''];''
          \<in> set (addGlyphClasses (correctUfoClassNames st)))"
proof -
  let ?st1 = "correctLeftNames st"
  let ?st2 = "correctUfoClassNames st"
  let ?stepL = "\<lambda>item s. renameLeftClass s item"
  let ?stepR = "\<lambda>item s. renameRightClass s item"
  have st1: "?st1 = fold ?stepL (leftUfoClasses st) st" by (simp add: correctLeftNames_def)
  have r1: "rightUfoClasses ?st1 = rightUfoClasses st" by simp
  have st2: "?st2 = fold ?stepR (rightUfoClasses st) ?st1"
    by (simp add: correctUfoClassNames_def correctRightNames_def)
  have rn: "rightNames st = rightRenames (rightUfoClasses st) ?st1"
    by (simp add: rightNames_def)
  have noatL: "\<forall>n \<in> fst ` set (leftUfoClasses st). take 1 n \<noteq> ''@''"
    using leftNamed isClassName_ufo_no_at by blast
  have noatR: "\<forall>n \<in> fst ` set (rightUfoClasses st). take 1 n \<noteq> ''@''"
    using rightNamed isClassName_ufo_no_at by blast
  have k0: "kerningNamesKnown st"
    unfolding kerningNamesKnown_def
  proof (intro allI impI)
    fix l r v assume "map_of (kerning st) (l, r) = Some v"
    then have "((l, r), v) \<in> set (kerning st)" by (rule map_of_SomeD)
    with known show "(take 1 l = ''@'' \<longrightarrow> l \<in> set (existingClassNames st)) \<and>
                     (take 1 r = ''@'' \<longrightarrow> r \<in> set (existingClassNames st))" by blast
  qed
  from left_pass_inv[OF noatL kernDict k0]
  have d1: "distinct (map fst (kerning ?st1))" and k1: "kerningNamesKnown ?st1"
    unfolding st1 by simp_all

  have a: "\<forall>s name. makeFeaClassName s name =
        (let origName = CHR ''@'' # filter legalChar name in
         if origName \<notin> set (existingClassNames s) then origName
         else suffixed origName
                (LEAST i. 1 \<le> i \<and> suffixed origName i \<notin> set (existingClassNames s)))"
    using makeFeaClassName_least by blast

  have b: "\<forall>l r v. ((l, r), v) \<in> set (kerning st) \<longrightarrow>
        map_of (kerning ?st2) (newName (leftNames st) l, newName (rightNames st) r) = Some v"
  proof (intro allI impI)
    fix l r v assume "((l, r), v) \<in> set (kerning st)"
    with kernDict have "map_of (kerning st) (l, r) = Some v" by simp
    from left_pass_forward[OF noatL kernDict k0 this]
    have "map_of (kerning ?st1) (newName (leftNames st) l, r) = Some v"
      by (simp add: st1 leftNames_def)
    from right_pass_forward[OF noatR d1 k1 this]
    show "map_of (kerning ?st2) (newName (leftNames st) l, newName (rightNames st) r) = Some v"
      unfolding st2 rn .
  qed

  have c: "\<forall>(name, members) \<in> set (leftUfoClasses st).
        (\<exists>s. newName (leftNames st) name = makeFeaClassName s name) \<and>
        (\<forall>r. map_of (kerning ?st2) (name, r) = None) \<and>
        map_of (leftUfoClasses ?st2) (newName (leftNames st) name) = Some members \<and>
        newName (leftNames st) name @ '' = ['' @ join '' '' members @ ''];''
          \<in> set (addGlyphClasses ?st2)"
  proof (clarify, intro conjI)
    fix name members assume m: "(name, members) \<in> set (leftUfoClasses st)"
    then have nk: "name \<in> fst ` set (leftUfoClasses st)" by force
    with noatL have na: "take 1 name \<noteq> ''@''" by blast
    show "\<exists>s. newName (leftNames st) name = makeFeaClassName s name"
      unfolding leftNames_def
      by (rule newName_made) (use nk in \<open>auto simp: leftRenames_keys dest: leftRenames_made\<close>)
    have "\<forall>r. map_of (kerning ?st1) (name, r) = None"
      using left_pass_plain_none[OF noatL kernDict k0 na] nk unfolding st1 by simp
    from right_pass_left_none[OF noatR d1 k1 this]
    show "\<forall>r. map_of (kerning ?st2) (name, r) = None" unfolding st2 .
    from left_pass_registry[OF noatL leftDict m]
    have reg1: "map_of (leftUfoClasses ?st1) (newName (leftNames st) name) = Some members"
      by (simp add: st1 leftNames_def)
    have l2: "leftUfoClasses ?st2 = leftUfoClasses ?st1"
      by (simp add: correctUfoClassNames_def)
    from reg1 l2
    show reg: "map_of (leftUfoClasses ?st2) (newName (leftNames st) name) = Some members"
      by simp
    have "\<forall>n \<in> fst ` set (rightUfoClasses ?st2). n \<notin> fst ` set (leftUfoClasses ?st1)"
      unfolding st2 by (rule right_pass_keys_fresh) (simp add: r1)
    moreover from reg1 have "newName (leftNames st) name \<in> fst ` set (leftUfoClasses ?st1)"
      by (metis domI dom_map_of_conv_image_fst)
    ultimately have "newName (leftNames st) name \<notin> fst ` set (rightUfoClasses ?st2)" by blast
    then have "map_of (dictUpdate (leftUfoClasses ?st2) (rightUfoClasses ?st2))
                 (newName (leftNames st) name) = Some members"
      using reg by (simp add: dictUpdate_other)
    then show "newName (leftNames st) name @ '' = ['' @ join '' '' members @ ''];''
          \<in> set (addGlyphClasses ?st2)" by (rule addGlyphClasses_line)
  qed

  have d: "\<forall>(name, members) \<in> set (rightUfoClasses st).
        (\<exists>s. newName (rightNames st) name = makeFeaClassName s name) \<and>
        (\<forall>l. map_of (kerning ?st2) (l, name) = None) \<and>
        map_of (rightUfoClasses ?st2) (newName (rightNames st) name) = Some members \<and>
        newName (rightNames st) name @ '' = ['' @ join '' '' members @ ''];''
          \<in> set (addGlyphClasses ?st2)"
  proof (clarify, intro conjI)
    fix name members assume m: "(name, members) \<in> set (rightUfoClasses st)"
    then have nk: "name \<in> fst ` set (rightUfoClasses st)" by force
    with noatR have na: "take 1 name \<noteq> ''@''" by blast
    show "\<exists>s. newName (rightNames st) name = makeFeaClassName s name"
      unfolding rn
      by (rule newName_made) (use nk in \<open>auto simp: rightRenames_keys dest: rightRenames_made\<close>)
    show "\<forall>l. map_of (kerning ?st2) (l, name) = None"
      using right_pass_plain_none[OF noatR d1 k1 na] nk unfolding st2 by simp
    from right_pass_registry[OF noatR rightDict m]
    show reg: "map_of (rightUfoClasses ?st2) (newName (rightNames st) name) = Some members"
      unfolding st2 rn .
    have "distinct (map fst (rightUfoClasses ?st2))"
      unfolding st2 by (rule right_pass_registry_distinct) (simp add: rightDict)
    from dictUpdate_in[OF this reg]
    have "map_of (dictUpdate (leftUfoClasses ?st2) (rightUfoClasses ?st2))
                 (newName (rightNames st) name) = Some members" .
    then show "newName (rightNames st) name @ '' = ['' @ join '' '' members @ ''];''
          \<in> set (addGlyphClasses ?st2)" by (rule addGlyphClasses_line)
  qed
  from a b c d show ?thesis by (intro conjI)
qed

definition colliding_groups_font :: writer where
  "colliding_groups_font =
     collectUfoClasses
       (init [((''public.kern1.A B'', ''Z''), 1),
              ((''public.kern1.AB'', ''public.kern2.X-Y''), 2),
              ((''C'', ''D''), 3)]
             [(''public.kern1.A B'', [''A'']), (''public.kern1.AB'', [''B'']),
              (''public.kern2.X-Y'', [''X''])]
             [])"

theorem group_names_corrected_witness:
  "list_all (isClassName leftUfoGroupRe) (map fst (leftUfoClasses colliding_groups_font)) \<and>
   list_all (isClassName rightUfoGroupRe) (map fst (rightUfoClasses colliding_groups_font)) \<and>
   leftNames colliding_groups_font =
     [(''public.kern1.A B'', ''@public.kern1.AB''), (''public.kern1.AB'', ''@public.kern1.AB_1'')] \<and>
   rightNames colliding_groups_font = [(''public.kern2.X-Y'', ''@public.kern2.XY'')] \<and>
   map_of (kerning (correctUfoClassNames colliding_groups_font))
     (newName (leftNames colliding_groups_font) ''public.kern1.AB'',
      newName (rightNames colliding_groups_font) ''public.kern2.X-Y'') = Some 2 \<and>
   map_of (kerning (correctUfoClassNames colliding_groups_font))
     (newName (leftNames colliding_groups_font) ''public.kern1.A B'',
      newName (rightNames colliding_groups_font) ''Z'') = Some 1 \<and>
   kerning (correctUfoClassNames colliding_groups_font) =
     [((''C'', ''D''), 3), ((''@public.kern1.AB'', ''Z''), 1),
      ((''@public.kern1.AB_1'', ''@public.kern2.XY''), 2)]"
proof -
  have h1: "\<forall>n \<in> fst ` set (leftUfoClasses colliding_groups_font). isClassName leftUfoGroupRe n"
    by code_simp
  have h2: "\<forall>n \<in> fst ` set (rightUfoClasses colliding_groups_font). isClassName rightUfoGroupRe n"
    by code_simp
  have h3: "distinct (map fst (leftUfoClasses colliding_groups_font))" by code_simp
  have h4: "distinct (map fst (rightUfoClasses colliding_groups_font))" by code_simp
  have h5: "distinct (map fst (kerning colliding_groups_font))" by code_simp
  have h6: "\<forall>((l, r), v) \<in> set (kerning colliding_groups_font).
                  (take 1 l = ''@'' \<longrightarrow> l \<in> set (existingClassNames colliding_groups_font)) \<and>
                  (take 1 r = ''@'' \<longrightarrow> r \<in> set (existingClassNames colliding_groups_font))"
    by code_simp
  have e1: "((''public.kern1.AB'', ''public.kern2.X-Y''), 2) \<in> set (kerning colliding_groups_font)"
    by code_simp
  have e2: "((''public.kern1.A B'', ''Z''), 1) \<in> set (kerning colliding_groups_font)"
    by code_simp
  note t = group_names_corrected[OF h1 h2 h3 h4 h5 h6, THEN conjunct2, THEN conjunct1]
  from t e1 have r1: "map_of (kerning (correctUfoClassNames colliding_groups_font))
     (newName (leftNames colliding_groups_font) ''public.kern1.AB'',
      newName (rightNames colliding_groups_font) ''public.kern2.X-Y'') = Some 2" by blast
  from t e2 have r2: "map_of (kerning (correctUfoClassNames colliding_groups_font))
     (newName (leftNames colliding_groups_font) ''public.kern1.A B'',
      newName (rightNames colliding_groups_font) ''Z'') = Some 1" by blast
  have l1: "list_all (isClassName leftUfoGroupRe) (map fst (leftUfoClasses colliding_groups_font))"
    by code_simp
  have l2: "list_all (isClassName rightUfoGroupRe) (map fst (rightUfoClasses colliding_groups_font))"
    by code_simp
  have n1: "leftNames colliding_groups_font =
     [(''public.kern1.A B'', ''@public.kern1.AB''), (''public.kern1.AB'', ''@public.kern1.AB_1'')]"
    by code_simp
  have n2: "rightNames colliding_groups_font = [(''public.kern2.X-Y'', ''@public.kern2.XY'')]"
    by code_simp
  have k: "kerning (correctUfoClassNames colliding_groups_font) =
     [((''C'', ''D''), 3), ((''@public.kern1.AB'', ''Z''), 1),
      ((''@public.kern1.AB_1'', ''@public.kern2.XY''), 2)]"
    by code_simp
  from l1 l2 n1 n2 r1 r2 k show ?thesis by (intro conjI)
qed

text \<open>
  C4 as stated fails when the kerning table already has a key written with a
  name that will be made: the entry \<open>(public.kern1.A, @public.kern2.X)\<close> with
  value 1 is keyed on the left group, is moved to \<open>(@public.kern1.A, @public.kern2.X)\<close>
  and is then overwritten there by the entry of value 2 that the renaming of the
  right group moves to the same pair.
\<close>


definition taken_name_font :: writer where
  "taken_name_font =
     collectUfoClasses
       (init [((''public.kern1.A'', ''@public.kern2.X''), 1),
              ((''public.kern1.A'', ''public.kern2.X''), 2)]
             [(''public.kern1.A'', [''A'']), (''public.kern2.X'', [''X''])]
             [])"

theorem rekeyed_entry_overwritten:
  "leftUfoClasses taken_name_font = [(''public.kern1.A'', [''A''])] \<and>
   rightUfoClasses taken_name_font = [(''public.kern2.X'', [''X''])] \<and>
   kerning taken_name_font =
     [((''public.kern1.A'', ''@public.kern2.X''), 1),
      ((''public.kern1.A'', ''public.kern2.X''), 2)] \<and>
   leftUfoClasses (correctUfoClassNames taken_name_font) = [(''@public.kern1.A'', [''A''])] \<and>
   rightUfoClasses (correctUfoClassNames taken_name_font) = [(''@public.kern2.X'', [''X''])] \<and>
   kerning (correctUfoClassNames taken_name_font) =
     [((''@public.kern1.A'', ''@public.kern2.X''), 2)]"
  by code_simp

subsection \<open>The text written\<close>


lemma sorted_keys_of_sort:
  fixes xs :: "('a::linorder \<times> 'b::linorder) list"
  shows "sorted (map fst (sort xs))"
proof -
  have "sorted_wrt (\<le>) (sort xs)" by simp
  then have "sorted_wrt (\<lambda>x y. fst x \<le> fst y) (sort xs)"
    by (rule sorted_wrt_mono_rel[rotated]) (auto simp: less_eq_prod_def)
  then show ?thesis by (simp add: sorted_map)
qed

text \<open>
  C8, amended. When some bucket has a rule, \<^verbatim>\<open>write\<close> returns the lines, joined
  by the line separator: one declaration line \<^verbatim>\<open>name = [members];\<close> for every
  group class of the merged left and right registries, whether a rule uses the
  class or not, sorted by class name; an empty line; the opening of the
  \<^verbatim>\<open>kern\<close> block; the glyph pair rules; then for the left class, the right class
  and the class pair bucket, in this order and only when the bucket has a
  rule, the line \<^verbatim>\<open>subtable;\<close> followed by the rules of the bucket; the closing
  line. The rules of a bucket are written sorted by their pair.
\<close>


theorem write_layout:
  assumes "collect st = Inr st'"
    and "glyphPairKerning st' \<noteq> [] \<or> leftClassKerning st' \<noteq> [] \<or>
         rightClassKerning st' \<noteq> [] \<or> classPairKerning st' \<noteq> []"
  shows
    "write_kern st linesep =
       Inr (join linesep
         (map (\<lambda>(key, members). key @ '' = ['' @ join '' '' members @ ''];'')
              (sort (dictUpdate (leftUfoClasses st') (rightUfoClasses st'))) @
          [[], ''feature kern {''] @
          addKerning (glyphPairKerning st') False @
          (if leftClassKerning st' = [] then []
           else ''    subtable;'' # addKerning (leftClassKerning st') True) @
          (if rightClassKerning st' = [] then []
           else ''    subtable;'' # addKerning (rightClassKerning st') True) @
          (if classPairKerning st' = [] then []
           else ''    subtable;'' # addKerning (classPairKerning st') False) @
          [''} kern;''])) \<and>
     sorted (map fst (sort (dictUpdate (leftUfoClasses st') (rightUfoClasses st')))) \<and>
     set (sort (dictUpdate (leftUfoClasses st') (rightUfoClasses st'))) =
       set (dictUpdate (leftUfoClasses st') (rightUfoClasses st')) \<and>
     length (sort (dictUpdate (leftUfoClasses st') (rightUfoClasses st'))) =
       length (dictUpdate (leftUfoClasses st') (rightUfoClasses st')) \<and>
     fst ` set (dictUpdate (leftUfoClasses st') (rightUfoClasses st')) =
       fst ` set (leftUfoClasses st') \<union> fst ` set (rightUfoClasses st') \<and>
     (\<forall>bucket enum.
        addKerning bucket enum =
          map (\<lambda>((left, right), val).
                 ''    '' @ (if enum then ''enum '' else []) @ ''pos '' @ left @ '' '' @ right @
                 '' '' @ dec_int val @ '';'')
              (sort bucket) \<and>
        sorted (map fst (sort bucket)) \<and> set (sort bucket) = set bucket \<and>
        length (sort bucket) = length bucket)"
proof -
  have "write_kern st linesep = Inr (join linesep (featureLines st'))"
    using assms by (auto simp: write_kern_def)
  then show ?thesis
    by (simp add: featureLines_def addGlyphClasses_def addKerning_def sorted_keys_of_sort
        keys_dictUpdate)
qed

definition four_buckets_font :: writer where
  "four_buckets_font =
     init [((''C'', ''D''), 5), ((''B'', ''D''), 4),
           ((''public.kern1.L'', ''D''), -20),
           ((''C'', ''public.kern2.R''), 7),
           ((''public.kern1.L'', ''public.kern2.R''), -15)]
          [(''public.kern2.R'', [''X'', ''Y'']), (''public.kern1.L'', [''A'', ''B''])] []"

definition four_buckets_collected :: writer where
  "four_buckets_collected =
     \<lparr>kerning = [((''C'', ''D''), 5), ((''B'', ''D''), 4),
                 ((''@public.kern1.L'', ''D''), -20),
                 ((''C'', ''@public.kern2.R''), 7),
                 ((''@public.kern1.L'', ''@public.kern2.R''), -15)],
      groups = [(''public.kern2.R'', [''X'', ''Y'']), (''public.kern1.L'', [''A'', ''B''])],
      featxt = [],
      leftFeaClasses = [], rightFeaClasses = [],
      leftUfoClasses = [(''@public.kern1.L'', [''A'', ''B''])],
      rightUfoClasses = [(''@public.kern2.R'', [''X'', ''Y''])],
      glyphPairKerning = [((''B'', ''D''), 4), ((''C'', ''D''), 5)],
      leftClassKerning = [((''[A]'', ''D''), -20)],
      rightClassKerning = [((''C'', ''@public.kern2.R''), 7)],
      classPairKerning = [((''@public.kern1.L'', ''@public.kern2.R''), -15)]\<rparr>"

theorem write_layout_witness:
  "collect four_buckets_font = Inr four_buckets_collected \<and>
   glyphPairKerning four_buckets_collected \<noteq> [] \<and>
   write_kern four_buckets_font [CHR 0x0A] =
     Inr (join [CHR 0x0A]
            [''@public.kern1.L = [A B];'', ''@public.kern2.R = [X Y];'', [],
             ''feature kern {'', ''    pos B D 4;'', ''    pos C D 5;'',
             ''    subtable;'', ''    enum pos [A] D -20;'',
             ''    subtable;'', ''    enum pos C @public.kern2.R 7;'',
             ''    subtable;'', ''    pos @public.kern1.L @public.kern2.R -15;'',
             ''} kern;''])"
proof -
  have c: "collect four_buckets_font = Inr four_buckets_collected" by code_simp
  have n: "glyphPairKerning four_buckets_collected \<noteq> []" by code_simp
  then have d: "glyphPairKerning four_buckets_collected \<noteq> [] \<or>
       leftClassKerning four_buckets_collected \<noteq> [] \<or>
       rightClassKerning four_buckets_collected \<noteq> [] \<or>
       classPairKerning four_buckets_collected \<noteq> []" by simp
  note t = write_layout[OF c d, of "[CHR 0x0A]", THEN conjunct1]
  have "Inr (join [CHR 0x0A]
         (map (\<lambda>(key, members). key @ '' = ['' @ join '' '' members @ ''];'')
              (sort (dictUpdate (leftUfoClasses four_buckets_collected)
                                (rightUfoClasses four_buckets_collected))) @
          [[], ''feature kern {''] @
          addKerning (glyphPairKerning four_buckets_collected) False @
          (if leftClassKerning four_buckets_collected = [] then []
           else ''    subtable;'' # addKerning (leftClassKerning four_buckets_collected) True) @
          (if rightClassKerning four_buckets_collected = [] then []
           else ''    subtable;'' # addKerning (rightClassKerning four_buckets_collected) True) @
          (if classPairKerning four_buckets_collected = [] then []
           else ''    subtable;'' # addKerning (classPairKerning four_buckets_collected) False) @
          [''} kern;''])) =
     (Inr (join [CHR 0x0A]
            [''@public.kern1.L = [A B];'', ''@public.kern2.R = [X Y];'', [],
             ''feature kern {'', ''    pos B D 4;'', ''    pos C D 5;'',
             ''    subtable;'', ''    enum pos [A] D -20;'',
             ''    subtable;'', ''    enum pos C @public.kern2.R 7;'',
             ''    subtable;'', ''    pos @public.kern1.L @public.kern2.R -15;'',
             ''} kern;'']) :: error + string)"
    by code_simp
  with t c n show ?thesis by simp
qed

text \<open>
  C8 as stated fails for a class that no rule uses: the group \<open>public.kern1.L\<close> is
  named by no entry of the kerning table and by no rule of a bucket, and its
  declaration line is written all the same.
\<close>


definition unused_class_font :: writer where
  "unused_class_font =
     init [((''C'', ''D''), 5)] [(''public.kern1.L'', [''A'', ''B''])] []"

theorem unused_class_is_declared:
  "collect unused_class_font =
     Inr \<lparr>kerning = [((''C'', ''D''), 5)],
          groups = [(''public.kern1.L'', [''A'', ''B''])], featxt = [],
          leftFeaClasses = [], rightFeaClasses = [],
          leftUfoClasses = [(''@public.kern1.L'', [''A'', ''B''])], rightUfoClasses = [],
          glyphPairKerning = [((''C'', ''D''), 5)], leftClassKerning = [],
          rightClassKerning = [], classPairKerning = []\<rparr> \<and>
   write_kern unused_class_font [CHR 0x0A] =
     Inr (join [CHR 0x0A]
            [''@public.kern1.L = [A B];'', [], ''feature kern {'',
             ''    pos C D 5;'', ''} kern;''])"
  by code_simp

end
